theory Spec2Isabelle
  imports Main "HOL-Library.Word"
begin

unbundle bit_operations_syntax

section \<open>Machine types\<close>

type_synonym u8 = "8 word"
type_synonym u16 = "16 word"
type_synonym u32 = "32 word"
type_synonym u64 = "64 word"

section \<open>SHA-256 (login.cpp, anonymous namespace)\<close>

text \<open>The 64 round constants \<open>kTable\<close> and the initial hash value \<open>h\<close> of \<open>sha256\<close>.\<close>

definition kTable :: "u32 list" where
  "kTable = [
    0x428A2F98,0x71374491,0xB5C0FBCF,0xE9B5DBA5,0x3956C25B,0x59F111F1,0x923F82A4,0xAB1C5ED5,
    0xD807AA98,0x12835B01,0x243185BE,0x550C7DC3,0x72BE5D74,0x80DEB1FE,0x9BDC06A7,0xC19BF174,
    0xE49B69C1,0xEFBE4786,0x0FC19DC6,0x240CA1CC,0x2DE92C6F,0x4A7484AA,0x5CB0A9DC,0x76F988DA,
    0x983E5152,0xA831C66D,0xB00327C8,0xBF597FC7,0xC6E00BF3,0xD5A79147,0x06CA6351,0x14292967,
    0x27B70A85,0x2E1B2138,0x4D2C6DFC,0x53380D13,0x650A7354,0x766A0ABB,0x81C2C92E,0x92722C85,
    0xA2BFE8A1,0xA81A664B,0xC24B8B70,0xC76C51A3,0xD192E819,0xD6990624,0xF40E3585,0x106AA070,
    0x19A4C116,0x1E376C08,0x2748774C,0x34B0BCB5,0x391C0CB3,0x4ED8AA4A,0x5B9CCA4F,0x682E6FF3,
    0x748F82EE,0x78A5636F,0x84C87814,0x8CC70208,0x90BEFFFA,0xA4506CEB,0xBEF9A3F7,0xC67178F2]"

definition h_init :: "u32 list" where
  "h_init = [0x6A09E667,0xBB67AE85,0x3C6EF372,0xA54FF53A,0x510E527F,0x9B05688C,0x1F83D9AB,0x5BE0CD19]"

text \<open>\<open>rotr(x, n) = (x >> n) | (x << (32 - n))\<close> on \<open>uint32_t\<close>.\<close>

definition rotr :: "u32 \<Rightarrow> nat \<Rightarrow> u32" where
  "rotr x n = drop_bit n x OR push_bit (32 - n) x"

text \<open>The padding loop \<open>while ((msg.size() % 64) != 56) msg.push_back(0x00)\<close>.\<close>

function pad_zeros :: "u8 list \<Rightarrow> u8 list" where
  "pad_zeros msg = (if length msg mod 64 \<noteq> 56 then pad_zeros (msg @ [0x00]) else msg)"
  by pat_completeness auto
termination
proof (relation "measure (\<lambda>msg. (120 - length msg mod 64) mod 64)")
  show "wf (measure (\<lambda>msg :: u8 list. (120 - length msg mod 64) mod 64))"
    by simp
next
  fix msg :: "u8 list"
  assume a: "length msg mod 64 \<noteq> 56"
  define r where "r = length msg mod 64"
  have r: "r < 64" "r \<noteq> 56"
    using a by (simp_all add: r_def)
  have s: "Suc (length msg) mod 64 = (if r = 63 then 0 else Suc r)"
    unfolding r_def by (simp add: mod_Suc)
  have "(120 - (if r = 63 then 0 else Suc r)) mod 64 < (120 - r) mod (64::nat)"
  proof (cases "r < 56")
    case True
    then have "(120 - r) mod 64 = 56 - r" "(120 - Suc r) mod 64 = 55 - r" "r \<noteq> 63"
      by (simp_all add: mod_if)
    with True show ?thesis by simp
  next
    case False
    with r have big: "56 < r" by simp
    with r have "(120 - r) mod 64 = 120 - r" by simp
    moreover have "r \<noteq> 63 \<Longrightarrow> (120 - Suc r) mod 64 = 119 - r"
      using r big by simp
    ultimately show ?thesis using r big by auto
  qed
  with s show "(msg @ [0x00], msg) \<in> measure (\<lambda>msg. (120 - length msg mod 64) mod 64)"
    by (simp add: r_def)
qed

declare pad_zeros.simps [simp del]

text \<open>\<open>for (int i = 7; i >= 0; --i) msg.push_back((bit_len >> (i * 8)) & 0xff)\<close>:
  the argument \<open>Suc i\<close> counts the bytes still to push, the byte pushed is number \<open>i\<close>.\<close>

fun push_bit_len :: "u64 \<Rightarrow> nat \<Rightarrow> u8 list \<Rightarrow> u8 list" where
  "push_bit_len bit_len 0 msg = msg"
| "push_bit_len bit_len (Suc i) msg =
     push_bit_len bit_len i (msg @ [ucast (drop_bit (i * 8) bit_len AND 0xff)])"

text \<open>The message buffer of \<open>sha256\<close> after padding: the input bytes, \<open>0x80\<close>, the zero
  bytes, and the bit length (\<open>uint64_t\<close>, \<open>msg.size() * 8\<close> wraps modulo \<open>2^64\<close>).\<close>

definition sha256_pad :: "string \<Rightarrow> u8 list" where
  "sha256_pad input =
     (let msg = map of_char input;
          bit_len = (of_nat (length msg) :: u64) * 8
      in push_bit_len bit_len 8 (pad_zeros (msg @ [0x80])))"

text \<open>The first loop over a block: \<open>w[i]\<close> for \<open>i < 16\<close> is the big-endian word at
  \<open>base = offset + i * 4\<close>; \<open>w\<close> starts as 64 zero words.\<close>

definition load_word :: "u8 list \<Rightarrow> nat \<Rightarrow> u32" where
  "load_word msg base =
     push_bit 24 (ucast (msg ! base)) OR push_bit 16 (ucast (msg ! (base + 1))) OR
     push_bit 8 (ucast (msg ! (base + 2))) OR ucast (msg ! (base + 3))"

definition load_block :: "u8 list \<Rightarrow> nat \<Rightarrow> u32 list" where
  "load_block msg offset =
     fold (\<lambda>i w. w[i := load_word msg (offset + i * 4)]) [0..<16] (replicate 64 0)"

text \<open>The second loop: \<open>w[i]\<close> for \<open>16 \<le> i < 64\<close>.\<close>

definition extend_step :: "nat \<Rightarrow> u32 list \<Rightarrow> u32 list" where
  "extend_step i w =
     (let s0 = rotr (w ! (i - 15)) 7 XOR rotr (w ! (i - 15)) 18 XOR drop_bit 3 (w ! (i - 15));
          s1 = rotr (w ! (i - 2)) 17 XOR rotr (w ! (i - 2)) 19 XOR drop_bit 10 (w ! (i - 2))
      in w[i := w ! (i - 16) + s0 + w ! (i - 7) + s1])"

definition extend_block :: "u32 list \<Rightarrow> u32 list" where
  "extend_block w = fold extend_step [16..<64] w"

text \<open>The round loop over the working variables \<open>a, b, c, d, e, f, g, hh\<close>.\<close>

type_synonym vars = "u32 \<times> u32 \<times> u32 \<times> u32 \<times> u32 \<times> u32 \<times> u32 \<times> u32"

fun round_step :: "u32 list \<Rightarrow> nat \<Rightarrow> vars \<Rightarrow> vars" where
  "round_step w i (a, b, c, d, e, f, g, hh) =
     (let s1 = rotr e 6 XOR rotr e 11 XOR rotr e 25;
          ch = (e AND f) XOR ((NOT e) AND g);
          temp1 = hh + s1 + ch + kTable ! i + w ! i;
          s0 = rotr a 2 XOR rotr a 13 XOR rotr a 22;
          maj = (a AND b) XOR (a AND c) XOR (b AND c);
          temp2 = s0 + maj
      in (temp1 + temp2, a, b, c, d + temp1, e, f, g))"

definition rounds :: "u32 list \<Rightarrow> vars \<Rightarrow> vars" where
  "rounds w v = fold (round_step w) [0..<64] v"

text \<open>One iteration of the loop over \<open>offset\<close>: schedule, rounds, and \<open>h[k] += ...\<close>.\<close>

definition process_block :: "u8 list \<Rightarrow> nat \<Rightarrow> u32 list \<Rightarrow> u32 list" where
  "process_block msg offset h =
     (let w = extend_block (load_block msg offset) in
      case rounds w (h ! 0, h ! 1, h ! 2, h ! 3, h ! 4, h ! 5, h ! 6, h ! 7) of
        (a, b, c, d, e, f, g, hh) \<Rightarrow>
          [h ! 0 + a, h ! 1 + b, h ! 2 + c, h ! 3 + d, h ! 4 + e, h ! 5 + f, h ! 6 + g, h ! 7 + hh])"

text \<open>\<open>for (offset = 0; offset < msg.size(); offset += 64)\<close>.\<close>

function process_blocks :: "u8 list \<Rightarrow> nat \<Rightarrow> u32 list \<Rightarrow> u32 list" where
  "process_blocks msg offset h =
     (if offset < length msg then process_blocks msg (offset + 64) (process_block msg offset h)
      else h)"
  by pat_completeness auto
termination
  by (relation "measure (\<lambda>(msg, offset, h). length msg - offset)") auto

declare process_blocks.simps [simp del]

text \<open>The output loop: four big-endian bytes for each of the eight words.\<close>

definition store_word :: "u32 \<Rightarrow> u8 list" where
  "store_word x =
     [ucast (drop_bit 24 x AND 0xff), ucast (drop_bit 16 x AND 0xff),
      ucast (drop_bit 8 x AND 0xff), ucast (x AND 0xff)]"

definition sha256_out :: "u32 list \<Rightarrow> u8 list" where
  "sha256_out h = fold (\<lambda>i out. out[i * 4 := store_word (h ! i) ! 0, i * 4 + 1 := store_word (h ! i) ! 1,
        i * 4 + 2 := store_word (h ! i) ! 2, i * 4 + 3 := store_word (h ! i) ! 3]) [0..<8] (replicate 32 0)"

definition sha256 :: "string \<Rightarrow> u8 list" where
  "sha256 input = sha256_out (process_blocks (sha256_pad input) 0 h_init)"

section \<open>Text codecs (login.cpp, anonymous namespace)\<close>

subsection \<open>\<open>base64url\<close>\<close>

definition alphabet :: string where
  "alphabet = ''ABCDEFGHIJKLMNOPQRSTUVWXYZabcdefghijklmnopqrstuvwxyz0123456789-_''"

text \<open>The loop \<open>while (i + 2 < len)\<close>; it returns the final \<open>i\<close> and \<open>out\<close>.\<close>

function base64url_loop :: "u8 list \<Rightarrow> nat \<Rightarrow> string \<Rightarrow> nat \<times> string" where
  "base64url_loop data i out =
     (if i + 2 < length data then
        let chunk = push_bit 16 (ucast (data ! i) :: u32) OR push_bit 8 (ucast (data ! (i + 1)))
                    OR ucast (data ! (i + 2))
        in base64url_loop data (i + 3)
             (out @ [alphabet ! unat (drop_bit 18 chunk AND 0x3f),
                     alphabet ! unat (drop_bit 12 chunk AND 0x3f),
                     alphabet ! unat (drop_bit 6 chunk AND 0x3f),
                     alphabet ! unat (chunk AND 0x3f)])
      else (i, out))"
  by pat_completeness auto
termination
  by (relation "measure (\<lambda>(data, i, out). length data - i)") auto

declare base64url_loop.simps [simp del]

text \<open>The tail after the loop: one or two remaining bytes, no padding character.\<close>

definition base64url_tail :: "u8 list \<Rightarrow> nat \<Rightarrow> string \<Rightarrow> string" where
  "base64url_tail data i out =
     (if i < length data then
        let b0 = ucast (data ! i) :: u32;
            out1 = out @ [alphabet ! unat (drop_bit 2 b0 AND 0x3f)]
        in if i + 1 < length data then
             let b1 = ucast (data ! (i + 1)) :: u32
             in out1 @ [alphabet ! unat (push_bit 4 (b0 AND 0x03) OR (drop_bit 4 b1 AND 0x0f)),
                        alphabet ! unat (push_bit 2 (b1 AND 0x0f))]
           else out1 @ [alphabet ! unat (push_bit 4 (b0 AND 0x03))]
      else out)"

definition base64url :: "u8 list \<Rightarrow> string" where
  "base64url data = (case base64url_loop data 0 [] of (i, out) \<Rightarrow> base64url_tail data i out)"

subsection \<open>\<open>url_encode\<close>\<close>

text \<open>The characters passed through unchanged; \<open>c\<close> is an \<open>unsigned char\<close>, compared by
  its byte value.\<close>

definition is_unreserved :: "char \<Rightarrow> bool" where
  "is_unreserved c =
     ((of_char (CHR ''A'') \<le> (of_char c :: nat) \<and> (of_char c :: nat) \<le> of_char (CHR ''Z'')) \<or>
      (of_char (CHR ''a'') \<le> (of_char c :: nat) \<and> (of_char c :: nat) \<le> of_char (CHR ''z'')) \<or>
      (of_char (CHR ''0'') \<le> (of_char c :: nat) \<and> (of_char c :: nat) \<le> of_char (CHR ''9'')) \<or>
      c = CHR ''-'' \<or> c = CHR ''_'' \<or> c = CHR ''.'' \<or> c = CHR ''~'')"

definition hex_upper :: string where
  "hex_upper = ''0123456789ABCDEF''"

text \<open>\<open>'%' << uppercase << hex << setw(2) << setfill('0') << int(c)\<close>: two upper-case
  hexadecimal digits, since \<open>int(c) < 256\<close>.\<close>

definition url_encode_char :: "char \<Rightarrow> string" where
  "url_encode_char c =
     (if is_unreserved c then [c]
      else [CHR ''%'', hex_upper ! ((of_char c :: nat) div 16), hex_upper ! ((of_char c :: nat) mod 16)])"

definition url_encode :: "string \<Rightarrow> string" where
  "url_encode raw = fold (\<lambda>c encoded. encoded @ url_encode_char c) raw []"

subsection \<open>\<open>url_decode\<close>\<close>

text \<open>The exceptions of the C++ standard library that the code can raise.\<close>

datatype exn = Invalid_argument | Out_of_range

text \<open>\<open>std::stoi(str, nullptr, 16)\<close>, as the C++ standard defines it through \<open>strtol\<close>:
  the C string stops at the first NUL; leading white space is skipped; a sign and a
  \<open>0x\<close> prefix are optional; the longest run of hexadecimal digits is converted;
  \<open>std::invalid_argument\<close> is thrown when there is no digit, \<open>std::out_of_range\<close>
  when the value does not fit an \<open>int\<close>.\<close>

definition is_space :: "char \<Rightarrow> bool" where
  "is_space c = (c = CHR '' '' \<or> (9 \<le> (of_char c :: nat) \<and> (of_char c :: nat) \<le> 13))"

definition hex_val :: "char \<Rightarrow> nat option" where
  "hex_val c =
     (let n = (of_char c :: nat) in
      if 48 \<le> n \<and> n \<le> 57 then Some (n - 48)
      else if 65 \<le> n \<and> n \<le> 70 then Some (n - 55)
      else if 97 \<le> n \<and> n \<le> 102 then Some (n - 87)
      else None)"

definition is_hex :: "char \<Rightarrow> bool" where
  "is_hex c = (hex_val c \<noteq> None)"

definition strip_0x :: "string \<Rightarrow> string" where
  "strip_0x s =
     (case s of
        a # b # c # rest \<Rightarrow>
          if a = CHR ''0'' \<and> (b = CHR ''x'' \<or> b = CHR ''X'') \<and> is_hex c then c # rest else s
      | _ \<Rightarrow> s)"

definition parse_hex_digits :: "string \<Rightarrow> nat option" where
  "parse_hex_digits s =
     (let ds = takeWhile is_hex s in
      if ds = [] then None else Some (foldl (\<lambda>acc c. acc * 16 + the (hex_val c)) 0 ds))"

definition stoi16 :: "string \<Rightarrow> exn + int" where
  "stoi16 str =
     (let s1 = dropWhile is_space (takeWhile (\<lambda>c. c \<noteq> CHR 0x00) str);
          neg = (case s1 of c # r \<Rightarrow> c = CHR ''-'' | [] \<Rightarrow> False);
          s2 = (case s1 of c # r \<Rightarrow> if c = CHR ''-'' \<or> c = CHR ''+'' then r else s1 | [] \<Rightarrow> s1)
      in case parse_hex_digits (strip_0x s2) of
           None \<Rightarrow> Inl Invalid_argument
         | Some n \<Rightarrow>
             let v = (if neg then - int n else int n) in
             if v < - (2 ^ 31) \<or> 2 ^ 31 - 1 < v then Inl Out_of_range else Inr v)"

text \<open>\<open>substr(pos, n)\<close> and \<open>substr(pos)\<close>. Every call of the code has
  \<open>pos \<le> size()\<close>, where \<open>substr\<close> does not throw.\<close>

definition substr :: "string \<Rightarrow> nat \<Rightarrow> nat \<Rightarrow> string" where
  "substr s pos n = take n (drop pos s)"

definition substr_from :: "string \<Rightarrow> nat \<Rightarrow> string" where
  "substr_from s pos = drop pos s"

text \<open>The loop of \<open>url_decode\<close> over \<open>i\<close>; \<open>static_cast<char>\<close> keeps the low eight bits.\<close>

function url_decode_loop :: "string \<Rightarrow> nat \<Rightarrow> string \<Rightarrow> exn + string" where
  "url_decode_loop val i out =
     (if i < length val then
        if val ! i = CHR ''%'' \<and> i + 2 < length val then
          case stoi16 (substr val (i + 1) 2) of
            Inl e \<Rightarrow> Inl e
          | Inr decoded \<Rightarrow> url_decode_loop val (i + 2 + 1) (out @ [char_of decoded])
        else if val ! i = CHR ''+'' then url_decode_loop val (i + 1) (out @ [CHR '' ''])
        else url_decode_loop val (i + 1) (out @ [val ! i])
      else Inr out)"
  by pat_completeness auto
termination
  by (relation "measure (\<lambda>(val, i, out). length val - i)") auto

declare url_decode_loop.simps [simp del]

definition url_decode :: "string \<Rightarrow> exn + string" where
  "url_decode val = url_decode_loop val 0 []"

subsection \<open>\<open>random_alnum\<close>\<close>

definition charset :: string where
  "charset = ''ABCDEFGHIJKLMNOPQRSTUVWXYZabcdefghijklmnopqrstuvwxyz0123456789''"

text \<open>The random engine is a stream of raw draws, \<open>rng k\<close> the \<open>k\<close>-th one.
  \<open>std::uniform_int_distribution<std::size_t> dist(0, sizeof(charset) - 2)\<close> returns a value
  between \<open>0\<close> and \<open>61\<close> (\<open>sizeof(charset)\<close> counts the final NUL); the raw draw is taken
  modulo 62, which ranges over exactly these values.\<close>

definition dist :: "(nat \<Rightarrow> nat) \<Rightarrow> nat \<Rightarrow> nat" where
  "dist rng k = rng k mod (length charset + 1 - 2 + 1)"

definition random_alnum :: "(nat \<Rightarrow> nat) \<Rightarrow> nat \<Rightarrow> string" where
  "random_alnum rng len = fold (\<lambda>i result. result @ [charset ! dist rng i]) [0..<len] []"

section \<open>LoginService (login.cpp, namespace \<open>opennow::auth\<close>)\<close>

record LoginProvider =
  idp_id :: string
  login_provider_code :: string
  login_provider_display_name :: string
  login_provider :: string
  streaming_service_url :: string
  login_provider_priority :: int

record PkceChallenge =
  verifier :: string
  challenge :: string

definition nvidia_default :: LoginProvider where
  "nvidia_default =
     \<lparr>idp_id = ''PDiAhv2kJTFeQ7WOPqiQ2tRZ7lGhR2X11dXvM4TZSxg'',
      login_provider_code = ''NVIDIA'',
      login_provider_display_name = ''NVIDIA'',
      login_provider = ''NVIDIA'',
      streaming_service_url = ''https://prod.cloudmatchbeta.nvidiagrid.net/'',
      login_provider_priority = 0\<rparr>"

definition kClientId :: string where
  "kClientId = ''ZU7sPN-miLujMD95LfOQ453IB0AtjM8sMyvgJ9wCXEQ''"

definition kScopes :: string where
  "kScopes = ''openid consent email tk_client age''"

definition kRedirectPorts :: "u16 list" where
  "kRedirectPorts = [2259, 6460, 7119, 8870, 9096]"

text \<open>What a run of the service reads from outside: the high-resolution clock (the tick
  count of \<open>time_since_epoch()\<close>) and the thread-local random engine.\<close>

record world =
  clock_now :: int
  rng :: "nat \<Rightarrow> nat"

text \<open>\<open>std::to_string\<close> on integers: decimal digits, a minus sign for negative values.\<close>

fun to_string_nat :: "nat \<Rightarrow> string" where
  "to_string_nat n =
     (if n < 10 then [''0123456789'' ! n]
      else to_string_nat (n div 10) @ [''0123456789'' ! (n mod 10)])"

declare to_string_nat.simps [simp del]

definition to_string :: "int \<Rightarrow> string" where
  "to_string i = (if i < 0 then CHR ''-'' # to_string_nat (nat (- i)) else to_string_nat (nat i))"

definition generate_nonce :: "world \<Rightarrow> string" where
  "generate_nonce w = base64url (sha256 (to_string (clock_now w) @ '':nonce''))"

definition device_id :: "world \<Rightarrow> string" where
  "device_id w = base64url (sha256 ''opennow-rewrite-device'')"

definition make_pkce_challenge :: "world \<Rightarrow> PkceChallenge" where
  "make_pkce_challenge w =
     (let verifier = random_alnum (rng w) 64;
          digest = sha256 verifier
      in \<lparr>verifier = verifier, challenge = base64url digest\<rparr>)"

definition build_auth_url :: "world \<Rightarrow> PkceChallenge \<Rightarrow> u16 \<Rightarrow> LoginProvider \<Rightarrow> string" where
  "build_auth_url w pkce callback_port provider =
     (let redirect_uri = ''http://localhost:'' @ to_string (uint callback_port)
      in ''https://login.nvidia.com/authorize?''
         @ ''response_type=code''
         @ ''&device_id='' @ url_encode (device_id w)
         @ ''&scope='' @ url_encode kScopes
         @ ''&client_id='' @ url_encode kClientId
         @ ''&redirect_uri='' @ url_encode redirect_uri
         @ ''&ui_locales=en_US''
         @ ''&nonce='' @ url_encode (generate_nonce w)
         @ ''&prompt=select_account''
         @ ''&code_challenge='' @ url_encode (challenge pkce)
         @ ''&code_challenge_method=S256''
         @ ''&idp_id='' @ url_encode (idp_id provider))"

subsection \<open>Port selection\<close>

text \<open>The operating system as the probe sees it (the POSIX build): whether the
  \<open>socket()\<close> call made for a candidate succeeds, and whether binding the loopback address
  on that port succeeds.\<close>

record probe_os =
  socket_ok :: "u16 \<Rightarrow> bool"
  bind_ok :: "u16 \<Rightarrow> bool"

fun probe_ports :: "probe_os \<Rightarrow> u16 list \<Rightarrow> u16 option" where
  "probe_ports os [] = None"
| "probe_ports os (port # rest) =
     (if \<not> socket_ok os port then probe_ports os rest
      else let ok = bind_ok os port in
           if ok then Some port else probe_ports os rest)"

definition pick_callback_port :: "probe_os \<Rightarrow> u16 option" where
  "pick_callback_port os = probe_ports os kRedirectPorts"

subsection \<open>Extracting the code\<close>

text \<open>\<open>std::string::find(c, pos)\<close>: the first index at or after \<open>pos\<close> holding \<open>c\<close>;
  \<open>None\<close> is \<open>npos\<close>.\<close>

definition find_char :: "string \<Rightarrow> char \<Rightarrow> nat \<Rightarrow> nat option" where
  "find_char s c pos =
     (let k = length (takeWhile (\<lambda>x. x \<noteq> c) (drop pos s))
      in if pos + k < length s then Some (pos + k) else None)"

text \<open>\<open>param.rfind(prefix, 0) == 0\<close>: \<open>param\<close> starts with \<open>prefix\<close>.\<close>

definition starts_with :: "string \<Rightarrow> string \<Rightarrow> bool" where
  "starts_with param pre = (take (length pre) param = pre)"

function extract_loop :: "string \<Rightarrow> nat \<Rightarrow> exn + string option" where
  "extract_loop query cursor =
     (if cursor < length query then
        let amp = find_char query (CHR ''&'') cursor;
            param = (case amp of None \<Rightarrow> substr_from query cursor
                     | Some a \<Rightarrow> substr query cursor (a - cursor))
        in if starts_with param ''code='' \<and> 5 < length param then
             (case url_decode (substr_from param 5) of Inl e \<Rightarrow> Inl e | Inr v \<Rightarrow> Inr (Some v))
           else (case amp of None \<Rightarrow> Inr None | Some a \<Rightarrow> extract_loop query (a + 1))
      else Inr None)"
  by pat_completeness auto
termination
proof (relation "measure (\<lambda>(query, cursor). length query - cursor)")
  show "wf (measure (\<lambda>(query :: string, cursor). length query - cursor))"
    by simp
next
  fix query :: string and cursor :: nat and x xa x2
  assume "cursor < length query" and "x = find_char query (CHR ''&'') cursor" and "x = Some x2"
  then have "find_char query (CHR ''&'') cursor = Some x2"
    by simp
  then have "cursor \<le> x2" "x2 < length query"
    by (auto simp: find_char_def Let_def split: if_splits)
  then show "((query, x2 + 1), (query, cursor)) \<in> measure (\<lambda>(query, cursor). length query - cursor)"
    by simp
qed

declare extract_loop.simps [simp del]

definition extract_code_from_callback_target :: "string \<Rightarrow> exn + string option" where
  "extract_code_from_callback_target callback_target =
     (case find_char callback_target (CHR ''?'') 0 of
        None \<Rightarrow> Inr None
      | Some query_pos \<Rightarrow> extract_loop (substr_from callback_target (query_pos + 1)) 0)"

subsection \<open>The loopback listener\<close>

datatype sock = Server | Client

text \<open>What the operating system can answer to the three calls made on the connection.
  \<open>accept\<close> and \<open>recv\<close> are blocking calls without a timeout: they may never return.
  \<open>recv\<close> delivers bytes (none on an orderly shutdown) or fails. \<open>send\<close> is called with
  flags \<open>0\<close> while \<open>SIGPIPE\<close> has its default disposition: it writes the bytes, or returns
  an error that the code ignores, or, on a connection that the peer has reset, raises
  \<open>SIGPIPE\<close>, which ends the process inside the call.\<close>

datatype accept_outcome = Accepted | Accept_failed | Accept_blocks

datatype recv_outcome = Received string | Recv_failed | Recv_blocks

datatype send_outcome = Send_ok | Send_failed | Send_sigpipe

text \<open>The system calls of \<open>wait_for_callback_code\<close> in the order they are made, with
  their outcome where there is one.\<close>

datatype event =
    Ev_socket bool
  | Ev_setsockopt
  | Ev_bind u16 bool
  | Ev_listen bool
  | Ev_accept accept_outcome
  | Ev_recv
  | Ev_send string send_outcome
  | Ev_close sock

text \<open>The operating system as the listener sees it (the POSIX build): the outcome of each
  call.\<close>

record listen_os =
  l_socket_ok :: bool
  l_bind_ok :: bool
  l_listen_ok :: bool
  l_accept :: accept_outcome
  l_recv :: recv_outcome
  l_send :: send_outcome

text \<open>How a call of the function ends: it returns the optional code, an exception leaves
  it, the process is killed by \<open>SIGPIPE\<close>, or it blocks forever.\<close>

datatype outcome = Returned "string option" | Thrown exn | Killed_by_sigpipe | Blocked

definition response :: string where
  "response = ''HTTP/1.1 200 OK'' @ [CHR 0x0D, CHR 0x0A]
     @ ''Content-Type: text/html'' @ [CHR 0x0D, CHR 0x0A, CHR 0x0D, CHR 0x0A]
     @ ''<html><body><h1>Login Successful</h1><p>You can return to OpenNOW Rewrite.</p></body></html>''"

text \<open>\<open>req.find("\r\n")\<close>.\<close>

fun find_crlf :: "string \<Rightarrow> nat option" where
  "find_crlf (a # b # rest) =
     (if a = CHR 0x0D \<and> b = CHR 0x0A then Some 0 else map_option Suc (find_crlf (b # rest)))"
| "find_crlf _ = None"

text \<open>The block under \<open>if (read_bytes > 0)\<close>: \<open>data\<close> is what \<open>recv\<close> delivered, of
  which the buffer takes at most 4095 bytes; \<open>std::string req(buffer.data())\<close> stops at the
  first NUL; \<open>first_space + 1\<close> is \<open>0\<close> when \<open>first_space\<close> is \<open>npos\<close>.\<close>

definition parse_request :: "string \<Rightarrow> exn + string option" where
  "parse_request data =
     (let req = takeWhile (\<lambda>c. c \<noteq> CHR 0x00) (take 4095 data);
          line_end = find_crlf req;
          first_line = (case line_end of None \<Rightarrow> substr_from req 0 | Some n \<Rightarrow> substr req 0 n);
          first_space = find_char first_line (CHR '' '') 0;
          second_space = find_char first_line (CHR '' '')
                           (case first_space of None \<Rightarrow> 0 | Some p \<Rightarrow> p + 1)
      in case first_space of
           None \<Rightarrow> Inr None
         | Some fs \<Rightarrow>
             (case second_space of
                None \<Rightarrow> Inr None
              | Some ss \<Rightarrow>
                  extract_code_from_callback_target (substr first_line (fs + 1) (ss - fs - 1))))"

text \<open>The result is the trace of system calls and the way the call ends. \<open>read_bytes > 0\<close>
  holds when \<open>recv\<close> delivered at least one byte.\<close>

definition wait_for_callback_code :: "listen_os \<Rightarrow> u16 \<Rightarrow> event list \<times> outcome" where
  "wait_for_callback_code os callback_port =
     (if \<not> l_socket_ok os then ([Ev_socket False], Returned None)
      else if \<not> l_bind_ok os then
        ([Ev_socket True, Ev_setsockopt, Ev_bind callback_port False, Ev_close Server],
         Returned None)
      else if \<not> l_listen_ok os then
        ([Ev_socket True, Ev_setsockopt, Ev_bind callback_port True, Ev_listen False,
          Ev_close Server], Returned None)
      else
        let tr0 = [Ev_socket True, Ev_setsockopt, Ev_bind callback_port True, Ev_listen True]
        in case l_accept os of
             Accept_blocks \<Rightarrow> (tr0 @ [Ev_accept Accept_blocks], Blocked)
           | Accept_failed \<Rightarrow> (tr0 @ [Ev_accept Accept_failed, Ev_close Server], Returned None)
           | Accepted \<Rightarrow>
               let tr = tr0 @ [Ev_accept Accepted, Ev_recv]
               in (case l_recv os of
                     Recv_blocks \<Rightarrow> (tr, Blocked)
                   | _ \<Rightarrow>
                     (case (case l_recv os of
                              Received data \<Rightarrow>
                                if 0 < length (take 4095 data) then parse_request data
                                else Inr None
                            | _ \<Rightarrow> Inr None) of
                        Inl e \<Rightarrow> (tr, Thrown e)
                      | Inr code \<Rightarrow>
                          (case l_send os of
                             Send_sigpipe \<Rightarrow>
                               (tr @ [Ev_send response Send_sigpipe], Killed_by_sigpipe)
                           | _ \<Rightarrow>
                               (tr @ [Ev_send response (l_send os), Ev_close Client,
                                      Ev_close Server], Returned code)))))"

section \<open>Notions of the specification\<close>

text \<open>The alphanumeric characters \<open>[A-Za-z0-9]\<close>.\<close>

definition alnum :: "char \<Rightarrow> bool" where
  "alnum c = (c \<in> set ''ABCDEFGHIJKLMNOPQRSTUVWXYZ'' \<or> c \<in> set ''abcdefghijklmnopqrstuvwxyz''
      \<or> c \<in> set ''0123456789'')"

text \<open>Splitting a query on \<open>&\<close> into its segments, and the query of a target: the text
  after the first \<open>?\<close>.\<close>

primrec split_amp :: "string \<Rightarrow> string list" where
  "split_amp [] = [[]]"
| "split_amp (c # s) =
     (if c = CHR ''&'' then [] # split_amp s
      else (case split_amp s of seg # segs \<Rightarrow> (c # seg) # segs | [] \<Rightarrow> [[c]]))"

definition query_of :: "string \<Rightarrow> string" where
  "query_of target = tl (dropWhile (\<lambda>c. c \<noteq> CHR ''?'') target)"

text \<open>A segment that the code accepts: it starts with \<open>code=\<close> and has a value of at least
  one character. \<open>decode_value\<close> is the outcome for such a segment, \<open>first_code\<close> the outcome
  for the first one of a list of segments.\<close>

definition is_code_segment :: "string \<Rightarrow> bool" where
  "is_code_segment seg = (starts_with seg ''code='' \<and> 5 < length seg)"

definition decode_value :: "string \<Rightarrow> exn + string option" where
  "decode_value seg = (case url_decode (drop 5 seg) of Inl e \<Rightarrow> Inl e | Inr v \<Rightarrow> Inr (Some v))"

definition first_code :: "string list \<Rightarrow> exn + string option" where
  "first_code segs =
     (case List.find is_code_segment segs of None \<Rightarrow> Inr None | Some seg \<Rightarrow> decode_value seg)"

text \<open>The extraction as the specification words it: the first segment whose key is
  \<open>code\<close> decides, whatever its value.\<close>

definition extract_spec :: "string \<Rightarrow> exn + string option" where
  "extract_spec target =
     (if CHR ''?'' \<in> set target then
        (case List.find (\<lambda>seg. starts_with seg ''code='') (split_amp (query_of target)) of
           None \<Rightarrow> Inr None
         | Some seg \<Rightarrow> decode_value seg)
      else Inr None)"

text \<open>The request line of what the listener received (the text before the first CRLF, within
  the buffer and before any NUL), a request line with fewer than two spaces (so not of the
  form \<open>METHOD target HTTP/version\<close>), and the target of a request line (the text between its
  first and its second space).\<close>

definition request_line :: "string \<Rightarrow> string" where
  "request_line data =
     (let req = takeWhile (\<lambda>c. c \<noteq> CHR 0x00) (take 4095 data)
      in case find_crlf req of None \<Rightarrow> req | Some n \<Rightarrow> take n req)"

definition lacks_two_spaces :: "string \<Rightarrow> bool" where
  "lacks_two_spaces line = (length (filter (\<lambda>c. c = CHR '' '') line) < 2)"

definition request_target :: "string \<Rightarrow> string" where
  "request_target line =
     takeWhile (\<lambda>c. c \<noteq> CHR '' '') (tl (dropWhile (\<lambda>c. c \<noteq> CHR '' '') line))"

text \<open>The trace of a run of the listener up to the single \<open>recv\<close>.\<close>

definition accepted_trace :: "u16 \<Rightarrow> event list" where
  "accepted_trace callback_port =
     [Ev_socket True, Ev_setsockopt, Ev_bind callback_port True, Ev_listen True,
      Ev_accept Accepted, Ev_recv]"

text \<open>The characters that percent-encoding can produce.\<close>

definition url_safe :: "char \<Rightarrow> bool" where
  "url_safe c = (is_unreserved c \<or> c = CHR ''%'')"

text \<open>A query string is its segments joined by \<open>&\<close>; a segment \<open>key=value\<close> is cut at its
  first \<open>=\<close>.\<close>

fun join_amp :: "string list \<Rightarrow> string" where
  "join_amp [] = []"
| "join_amp [seg] = seg"
| "join_amp (seg # segs) = seg @ CHR ''&'' # join_amp segs"

definition key_value :: "string \<Rightarrow> string \<times> string" where
  "key_value seg =
     (takeWhile (\<lambda>c. c \<noteq> CHR ''='') seg, tl (dropWhile (\<lambda>c. c \<noteq> CHR ''='') seg))"

text \<open>The parameters of the authorization request in their fixed order, each with its
  value before percent-encoding.\<close>

definition auth_params :: "world \<Rightarrow> PkceChallenge \<Rightarrow> u16 \<Rightarrow> LoginProvider \<Rightarrow> (string \<times> string) list" where
  "auth_params w pkce callback_port provider =
     [(''response_type'', ''code''),
      (''device_id'', device_id w),
      (''scope'', kScopes),
      (''client_id'', kClientId),
      (''redirect_uri'', ''http://localhost:'' @ to_string (uint callback_port)),
      (''ui_locales'', ''en_US''),
      (''nonce'', generate_nonce w),
      (''prompt'', ''select_account''),
      (''code_challenge'', challenge pkce),
      (''code_challenge_method'', ''S256''),
      (''idp_id'', idp_id provider)]"

definition auth_endpoint :: string where
  "auth_endpoint = ''https://login.nvidia.com/authorize?''"

text \<open>Standard base64 (RFC 4648): three bytes form a 24-bit group read as four 6-bit
  values; a final single byte is extended by four zero bits to two values and padded with
  \<open>==\<close>; two final bytes are extended by two zero bits to three values and padded with \<open>=\<close>.
  \<open>sextet n k\<close> is the character of the \<open>k\<close>-th 6-bit value of \<open>n\<close>, counted from the least
  significant. The URL-safe form replaces \<open>+\<close> by \<open>-\<close> and \<open>/\<close> by \<open>_\<close> and drops the padding.\<close>

definition b64_alphabet :: string where
  "b64_alphabet = ''ABCDEFGHIJKLMNOPQRSTUVWXYZabcdefghijklmnopqrstuvwxyz0123456789+/''"

definition sextet :: "nat \<Rightarrow> nat \<Rightarrow> char" where
  "sextet n k = b64_alphabet ! (n div 64 ^ k mod 64)"

fun base64_std :: "u8 list \<Rightarrow> string" where
  "base64_std [] = []"
| "base64_std [a] =
     (let n = unat a * 16 in [sextet n 1, sextet n 0, CHR ''='', CHR ''=''])"
| "base64_std [a, b] =
     (let n = (unat a * 256 + unat b) * 4 in [sextet n 2, sextet n 1, sextet n 0, CHR ''=''])"
| "base64_std (a # b # c # rest) =
     (let n = unat a * 65536 + unat b * 256 + unat c
      in [sextet n 3, sextet n 2, sextet n 1, sextet n 0] @ base64_std rest)"

definition to_url_alphabet :: "char \<Rightarrow> char" where
  "to_url_alphabet c = (if c = CHR ''+'' then CHR ''-'' else if c = CHR ''/'' then CHR ''_'' else c)"

definition base64url_spec :: "u8 list \<Rightarrow> string" where
  "base64url_spec data = map to_url_alphabet (filter (\<lambda>c. c \<noteq> CHR ''='') (base64_std data))"

text \<open>Percent-encoding as the specification words it: the characters \<open>[A-Za-z0-9-_.~]\<close> pass
  through unchanged, every other byte becomes \<open>%\<close> and its two upper-case hexadecimal digits.
  \<open>decimal_value\<close> reads a string of decimal digits.\<close>

definition unreserved_chars :: string where
  "unreserved_chars = ''ABCDEFGHIJKLMNOPQRSTUVWXYZabcdefghijklmnopqrstuvwxyz0123456789-_.~''"

definition percent_encode_spec :: "string \<Rightarrow> string" where
  "percent_encode_spec s =
     concat (map (\<lambda>c. if c \<in> set unreserved_chars then [c]
                       else [CHR ''%'', ''0123456789ABCDEF'' ! ((of_char c :: nat) div 16),
                             ''0123456789ABCDEF'' ! ((of_char c :: nat) mod 16)]) s)"

definition decimal_value :: "string \<Rightarrow> nat" where
  "decimal_value s = foldl (\<lambda>a c. 10 * a + ((of_char c :: nat) - 48)) 0 s"

text \<open>SHA-256 as the standard (FIPS 180-4) defines it, on bytes. The message is padded
  with \<open>0x80\<close>, the least number of zero bytes that brings the length to 56 modulo 64, and
  the bit length as eight big-endian bytes; it is cut into blocks of 64 bytes. The sixteen
  words of a block are big-endian; \<open>fips_schedule n win\<close> gives the next \<open>n\<close> words of the
  message schedule from the window \<open>win\<close> of the last sixteen ones, each new word being
  \<open>\<sigma>\<^sub>1\<close> of the word two back, plus the word seven back, plus \<open>\<sigma>\<^sub>0\<close> of the word
  fifteen back, plus the word sixteen back; a round mixes one constant and one schedule
  word into the eight working variables; after 64 rounds the variables are added to the
  hash value. Additions are those of 32-bit words and wrap.\<close>

definition Ch :: "u32 \<Rightarrow> u32 \<Rightarrow> u32 \<Rightarrow> u32" where
  "Ch x y z = (x AND y) XOR (NOT x AND z)"

definition Maj :: "u32 \<Rightarrow> u32 \<Rightarrow> u32 \<Rightarrow> u32" where
  "Maj x y z = (x AND y) XOR (x AND z) XOR (y AND z)"

definition Sigma0 :: "u32 \<Rightarrow> u32" where
  "Sigma0 x = word_rotr 2 x XOR word_rotr 13 x XOR word_rotr 22 x"

definition Sigma1 :: "u32 \<Rightarrow> u32" where
  "Sigma1 x = word_rotr 6 x XOR word_rotr 11 x XOR word_rotr 25 x"

definition sigma0 :: "u32 \<Rightarrow> u32" where
  "sigma0 x = word_rotr 7 x XOR word_rotr 18 x XOR drop_bit 3 x"

definition sigma1 :: "u32 \<Rightarrow> u32" where
  "sigma1 x = word_rotr 17 x XOR word_rotr 19 x XOR drop_bit 10 x"

definition fips_word :: "u8 \<Rightarrow> u8 \<Rightarrow> u8 \<Rightarrow> u8 \<Rightarrow> u32" where
  "fips_word a b c d = of_nat (unat a * 16777216 + unat b * 65536 + unat c * 256 + unat d)"

fun fips_words :: "u8 list \<Rightarrow> u32 list" where
  "fips_words (a # b # c # d # rest) = fips_word a b c d # fips_words rest"
| "fips_words _ = []"

fun fips_schedule :: "nat \<Rightarrow> u32 list \<Rightarrow> u32 list" where
  "fips_schedule 0 win = []"
| "fips_schedule (Suc n) win =
     (let x = sigma1 (win ! 14) + win ! 9 + sigma0 (win ! 1) + win ! 0
      in x # fips_schedule n (tl win @ [x]))"

fun fips_round :: "u32 \<times> u32 \<Rightarrow> vars \<Rightarrow> vars" where
  "fips_round (k, w) (a, b, c, d, e, f, g, h) =
     (let T1 = h + Sigma1 e + Ch e f g + k + w;
          T2 = Sigma0 a + Maj a b c
      in (T1 + T2, a, b, c, d + T1, e, f, g))"

fun fips_add :: "vars \<Rightarrow> vars \<Rightarrow> vars" where
  "fips_add (a, b, c, d, e, f, g, h) (a', b', c', d', e', f', g', h') =
     (a + a', b + b', c + c', d + d', e + e', f + f', g + g', h + h')"

definition fips_compress :: "u8 list \<Rightarrow> vars \<Rightarrow> vars" where
  "fips_compress blk H =
     (let w16 = fips_words blk;
          W = w16 @ fips_schedule 48 w16
      in fips_add H (fold fips_round (zip kTable W) H))"

fun fips_blocks :: "u8 list \<Rightarrow> u8 list list" where
  "fips_blocks m = (if m = [] then [] else take 64 m # fips_blocks (drop 64 m))"

declare fips_blocks.simps [simp del]

definition fips_pad :: "u8 list \<Rightarrow> u8 list" where
  "fips_pad m =
     m @ [0x80] @ replicate ((119 - length m mod 64) mod 64) 0
       @ map (\<lambda>i. of_nat (8 * length m div 256 ^ i)) [7, 6, 5, 4, 3, 2, 1, 0]"

definition fips_bytes :: "u32 \<Rightarrow> u8 list" where
  "fips_bytes x = [ucast (drop_bit 24 x), ucast (drop_bit 16 x), ucast (drop_bit 8 x), ucast x]"

definition fips_H0 :: vars where
  "fips_H0 = (0x6A09E667, 0xBB67AE85, 0x3C6EF372, 0xA54FF53A,
              0x510E527F, 0x9B05688C, 0x1F83D9AB, 0x5BE0CD19)"

definition sha256_fips :: "u8 list \<Rightarrow> u8 list" where
  "sha256_fips m =
     (case fold fips_compress (fips_blocks (fips_pad m)) fips_H0 of
        (a, b, c, d, e, f, g, h) \<Rightarrow> concat (map fips_bytes [a, b, c, d, e, f, g, h]))"

text \<open>The hash value as the list of its eight words.\<close>

definition words_of :: "vars \<Rightarrow> u32 list" where
  "words_of v = (case v of (a, b, c, d, e, f, g, h) \<Rightarrow> [a, b, c, d, e, f, g, h])"

section \<open>Port selection returns the first candidate that binds\<close>

lemma probe_ports_find:
  "probe_ports os ports = List.find (\<lambda>p. socket_ok os p \<and> bind_ok os p) ports"
  by (induction ports) (auto simp: Let_def)

lemma find_Some_takeWhile:
  "List.find P xs = Some p \<Longrightarrow>
   p \<in> set xs \<and> P p \<and> (\<forall>q \<in> set (takeWhile (\<lambda>q. q \<noteq> p) xs). \<not> P q)"
  by (induction xs) (auto split: if_splits)

text \<open>
  Claim C8. \<open>pick_callback_port\<close> walks the candidate list 2259, 6460, 7119, 8870, 9096 in
  this order; whatever the operating system answers for each port, the result is the first
  candidate whose probe socket was created and bound, and there is no result exactly when
  none of the five candidates binds.
\<close>

theorem pick_callback_port_first_bindable:
  "kRedirectPorts = [2259, 6460, 7119, 8870, 9096]
   \<and> pick_callback_port os = List.find (\<lambda>p. socket_ok os p \<and> bind_ok os p) kRedirectPorts
   \<and> (pick_callback_port os = None
        \<longleftrightarrow> (\<forall>p \<in> set kRedirectPorts. \<not> (socket_ok os p \<and> bind_ok os p)))
   \<and> (\<forall>p. pick_callback_port os = Some p \<longrightarrow>
         p \<in> set kRedirectPorts \<and> socket_ok os p \<and> bind_ok os p
         \<and> (\<forall>q \<in> set (takeWhile (\<lambda>q. q \<noteq> p) kRedirectPorts).
               \<not> (socket_ok os q \<and> bind_ok os q)))"
proof (intro conjI allI impI)
  show "kRedirectPorts = [2259, 6460, 7119, 8870, 9096]"
    by (simp add: kRedirectPorts_def)
next
  show f: "pick_callback_port os = List.find (\<lambda>p. socket_ok os p \<and> bind_ok os p) kRedirectPorts"
    by (simp add: pick_callback_port_def probe_ports_find)
  show "pick_callback_port os = None
        \<longleftrightarrow> (\<forall>p \<in> set kRedirectPorts. \<not> (socket_ok os p \<and> bind_ok os p))"
    unfolding f find_None_iff by blast
  fix p
  assume "pick_callback_port os = Some p"
  then have s: "List.find (\<lambda>p. socket_ok os p \<and> bind_ok os p) kRedirectPorts = Some p"
    by (simp only: f)
  from find_Some_takeWhile [OF s]
  show "p \<in> set kRedirectPorts" and "socket_ok os p" and "bind_ok os p"
    and "\<forall>q \<in> set (takeWhile (\<lambda>q. q \<noteq> p) kRedirectPorts). \<not> (socket_ok os q \<and> bind_ok os q)"
    by blast+
qed



theorem pick_callback_port_first_bindable_witness:
  "pick_callback_port \<lparr>socket_ok = (\<lambda>p. p \<noteq> 6460), bind_ok = (\<lambda>p. p \<noteq> 2259)\<rparr> = Some 7119
   \<and> 7119 \<in> set kRedirectPorts
   \<and> pick_callback_port \<lparr>socket_ok = (\<lambda>p. True), bind_ok = (\<lambda>p. False)\<rparr> = None"
proof -
  let ?os = "\<lparr>socket_ok = (\<lambda>p :: u16. p \<noteq> 6460), bind_ok = (\<lambda>p :: u16. p \<noteq> 2259)\<rparr>"
  let ?no = "\<lparr>socket_ok = (\<lambda>p :: u16. True), bind_ok = (\<lambda>p :: u16. False)\<rparr>"
  note t = pick_callback_port_first_bindable
  have a: "pick_callback_port ?os = Some 7119"
    unfolding t [of ?os, THEN conjunct2, THEN conjunct1]
    by (simp add: kRedirectPorts_def)
  have b: "7119 \<in> set kRedirectPorts"
    using t [of ?os, THEN conjunct2, THEN conjunct2, THEN conjunct2] a by blast
  have c: "pick_callback_port ?no = None"
    unfolding t [of ?no, THEN conjunct2, THEN conjunct2, THEN conjunct1]
    by simp
  from a b c show ?thesis by blast
qed

section \<open>Percent-decoding raises on a non-hexadecimal escape\<close>

text \<open>
  Claim C2. Percent-decoding is claimed never to throw. In the code, a \<open>%\<close> followed by
  two characters that are not hexadecimal digits (and a third character of any kind, so
  that the bound check passes) reaches \<open>std::stoi\<close>, which throws
  \<open>std::invalid_argument\<close>; the exception leaves \<open>url_decode\<close> and
  \<open>extract_code_from_callback_target\<close>.
\<close>

theorem url_decode_throws_on_non_hex:
  "url_decode ''%zzz'' = Inl Invalid_argument
   \<and> extract_code_from_callback_target ''/?code=%zzz'' = Inl Invalid_argument"
proof -
  have s: "stoi16 ''zz'' = Inl Invalid_argument"
    by (simp add: stoi16_def parse_hex_digits_def strip_0x_def is_space_def is_hex_def hex_val_def)
  have d: "url_decode ''%zzz'' = Inl Invalid_argument"
    by (simp add: url_decode_def url_decode_loop.simps [of _ 0] substr_def s)
  have f: "find_char ''/?code=%zzz'' (CHR ''?'') 0 = Some 1"
    by (simp add: find_char_def)
  have g: "find_char ''code=%zzz'' (CHR ''&'') 0 = None"
    by (simp add: find_char_def)
  have "extract_code_from_callback_target ''/?code=%zzz'' = Inl Invalid_argument"
    by (simp add: extract_code_from_callback_target_def f substr_from_def
        extract_loop.simps [of _ 0] g starts_with_def d)
  with d show ?thesis by simp
qed

section \<open>Extracting the code from the callback target\<close>

lemma split_amp_no_amp: "CHR ''&'' \<notin> set s \<Longrightarrow> split_amp s = [s]"
  by (induction s) auto

lemma split_amp_append: "CHR ''&'' \<notin> set pre \<Longrightarrow> split_amp (pre @ CHR ''&'' # rest) = pre # split_amp rest"
  by (induction pre) auto

lemma takeWhile_neq_length: "length (takeWhile (\<lambda>x. x \<noteq> c) t) < length t \<longleftrightarrow> c \<in> set t"
  by (induction t) auto

lemma takeWhile_neq_split:
  "c \<in> set t \<Longrightarrow>
   t = takeWhile (\<lambda>x. x \<noteq> c) t @ c # drop (Suc (length (takeWhile (\<lambda>x. x \<noteq> c) t))) t"
  by (induction t) auto

lemma find_char_None: "pos \<le> length s \<Longrightarrow> find_char s c pos = None \<longleftrightarrow> c \<notin> set (drop pos s)"
  using takeWhile_neq_length [of c "drop pos s"] by (auto simp: find_char_def Let_def)

lemma find_char_Some:
  assumes "find_char s c pos = Some a"
  shows "pos \<le> a \<and> a < length s \<and> c \<notin> set (take (a - pos) (drop pos s))
     \<and> drop pos s = take (a - pos) (drop pos s) @ c # drop (a + 1) s"
proof -
  let ?t = "drop pos s"
  let ?k = "length (takeWhile (\<lambda>x. x \<noteq> c) ?t)"
  from assms have a: "a = pos + ?k" and lt: "pos + ?k < length s"
    by (auto simp: find_char_def Let_def split: if_splits)
  then have k: "?k < length ?t" by simp
  then have m: "c \<in> set ?t"
    by (simp only: takeWhile_neq_length)
  have tk: "take ?k ?t = takeWhile (\<lambda>x. x \<noteq> c) ?t"
    by (rule takeWhile_eq_take [symmetric])
  have nc: "c \<notin> set (take ?k ?t)"
    unfolding tk by (auto dest: set_takeWhileD)
  have "?t = take ?k ?t @ c # drop (Suc ?k) ?t"
    using takeWhile_neq_split [OF m] by (simp only: tk)
  then have "?t = take ?k ?t @ c # drop (pos + ?k + 1) s"
    by (simp add: add.commute)
  with a lt nc show ?thesis by simp
qed

lemma first_code_Cons:
  "first_code (seg # segs) = (if is_code_segment seg then decode_value seg else first_code segs)"
  by (simp add: first_code_def)

lemma extract_loop_None:
  "cursor < length query \<Longrightarrow> find_char query (CHR ''&'') cursor = None \<Longrightarrow>
   extract_loop query cursor =
     (if is_code_segment (drop cursor query) then decode_value (drop cursor query) else Inr None)"
  by (simp add: extract_loop.simps [of query cursor] Let_def is_code_segment_def decode_value_def
      substr_from_def)

lemma extract_loop_Some:
  "cursor < length query \<Longrightarrow> find_char query (CHR ''&'') cursor = Some a \<Longrightarrow>
   extract_loop query cursor =
     (if is_code_segment (take (a - cursor) (drop cursor query))
      then decode_value (take (a - cursor) (drop cursor query))
      else extract_loop query (a + 1))"
  by (simp add: extract_loop.simps [of query cursor] Let_def is_code_segment_def decode_value_def
      substr_from_def substr_def)

lemma extract_loop_segments:
  "cursor \<le> length query \<Longrightarrow> extract_loop query cursor = first_code (split_amp (drop cursor query))"
proof (induction query cursor rule: extract_loop.induct)
  case (1 query cursor)
  show ?case
  proof (cases "cursor < length query")
    case False
    with "1.prems" have "drop cursor query = []" by simp
    with False show ?thesis
      by (simp add: extract_loop.simps [of query cursor] first_code_def is_code_segment_def starts_with_def)
  next
    case True
    show ?thesis
    proof (cases "find_char query (CHR ''&'') cursor")
      case None
      then have "CHR ''&'' \<notin> set (drop cursor query)"
        using find_char_None "1.prems" by simp
      then have "split_amp (drop cursor query) = [drop cursor query]"
        by (rule split_amp_no_amp)
      then show ?thesis
        by (simp add: extract_loop_None [OF True None] first_code_Cons) (simp add: first_code_def)
    next
      case (Some a)
      note fs = find_char_Some [OF Some]
      let ?param = "take (a - cursor) (drop cursor query)"
      have sp: "split_amp (drop cursor query) = ?param # split_amp (drop (a + 1) query)"
        using fs split_amp_append [of ?param "drop (a + 1) query"] by simp
      show ?thesis
      proof (cases "is_code_segment ?param")
        case True
        then show ?thesis
          by (simp add: extract_loop_Some [OF \<open>cursor < length query\<close> Some] sp first_code_Cons)
      next
        case False
        then have np: "\<not> (starts_with ?param ''code='' \<and> 5 < length ?param)"
          by (simp add: is_code_segment_def)
        have "extract_loop query (a + 1) = first_code (split_amp (drop (a + 1) query))"
          using "1.IH" [OF \<open>cursor < length query\<close> refl, of _ a] Some np fs
          by (auto simp: substr_def min_def split: if_splits)
        with False show ?thesis
          by (simp add: extract_loop_Some [OF \<open>cursor < length query\<close> Some] sp first_code_Cons)
      qed
    qed
  qed
qed

lemma extract_code_segments:
  "extract_code_from_callback_target target =
     (if CHR ''?'' \<in> set target
      then first_code (split_amp (query_of target))
      else Inr None)"
proof (cases "find_char target (CHR ''?'') 0")
  case None
  then have "CHR ''?'' \<notin> set target"
    using find_char_None [of 0 target] by simp
  with None show ?thesis
    by (simp add: extract_code_from_callback_target_def)
next
  case (Some q)
  from find_char_Some [OF Some]
  have t: "target = take q target @ CHR ''?'' # drop (q + 1) target"
    and n: "CHR ''?'' \<notin> set (take q target)" and q: "q < length target"
    by simp_all
  have m: "CHR ''?'' \<in> set target"
    by (subst t) simp
  have "dropWhile (\<lambda>c. c \<noteq> CHR ''?'') (take q target @ CHR ''?'' # drop (q + 1) target)
        = CHR ''?'' # drop (q + 1) target"
    using n by (auto simp: dropWhile_append3)
  then have d: "tl (dropWhile (\<lambda>c. c \<noteq> CHR ''?'') target) = drop (q + 1) target"
    using t by simp
  show ?thesis
    using m q by (simp add: extract_code_from_callback_target_def Some substr_from_def d
        extract_loop_segments query_of_def)
qed

lemma url_decode_loop_grows:
  "url_decode_loop val i out = Inr r \<Longrightarrow>
   length out \<le> length r \<and> (i < length val \<longrightarrow> length out < length r)"
proof (induction val i out rule: url_decode_loop.induct)
  case (1 val i out)
  show ?case
  proof (cases "i < length val")
    case False
    with "1.prems" show ?thesis
      by (simp add: url_decode_loop.simps [of val i out])
  next
    case True
    note lt = True
    show ?thesis
    proof (cases "val ! i = CHR ''%'' \<and> i + 2 < length val")
      case True
      with lt "1.prems" obtain decoded where
        s: "stoi16 (substr val (i + 1) 2) = Inr decoded"
        and r: "url_decode_loop val (i + 2 + 1) (out @ [char_of decoded]) = Inr r"
        by (auto simp: url_decode_loop.simps [of val i out] split: sum.splits)
      from "1.IH"(1) [OF lt True s r] lt show ?thesis by simp
    next
      case False
      note np = False
      show ?thesis
      proof (cases "val ! i = CHR ''+''")
        case True
        with lt np "1.prems" have r: "url_decode_loop val (i + 1) (out @ [CHR '' '']) = Inr r"
          by (auto simp: url_decode_loop.simps [of val i out])
        from "1.IH"(2) [OF lt np True r] lt show ?thesis by simp
      next
        case False
        with lt np "1.prems" have r: "url_decode_loop val (i + 1) (out @ [val ! i]) = Inr r"
          by (auto simp: url_decode_loop.simps [of val i out])
        from "1.IH"(3) [OF lt np False r] lt show ?thesis by simp
      qed
    qed
  qed
qed

lemma url_decode_nonempty: "val \<noteq> [] \<Longrightarrow> url_decode val \<noteq> Inr []"
  using url_decode_loop_grows [of val 0 "[]" "[]"] by (auto simp: url_decode_def)

lemma decode_value_nonempty: "is_code_segment seg \<Longrightarrow> decode_value seg \<noteq> Inr (Some [])"
  using url_decode_nonempty [of "drop 5 seg"]
  by (auto simp: decode_value_def is_code_segment_def split: sum.splits)

lemma first_code_nonempty: "first_code segs \<noteq> Inr (Some [])"
  by (induction segs) (simp_all add: first_code_Cons decode_value_nonempty, simp add: first_code_def)

lemma first_code_filter: "first_code (filter (\<lambda>seg. seg \<noteq> ''code='') segs) = first_code segs"
  by (induction segs) (auto simp: first_code_Cons is_code_segment_def)

lemma url_decode_v: "url_decode ''v'' = Inr ''v''"
  by (simp add: url_decode_def url_decode_loop.simps)

lemma url_decode_example: "url_decode ''abc123%2Ffoo%2Bbar'' = Inr ''abc123/foo+bar''"
  by (simp add: url_decode_def url_decode_loop.simps substr_def stoi16_def parse_hex_digits_def
      strip_0x_def is_space_def is_hex_def hex_val_def Let_def char_of_def)

lemma split_example:
  "split_amp ''code=abc123%2Ffoo%2Bbar&state=foo'' = [''code=abc123%2Ffoo%2Bbar'', ''state=foo'']"
  by simp

text \<open>
  Claim C10. A segment that is exactly \<open>code=\<close> is skipped: for every target with a query,
  the result is that of the query with these segments removed, and the result is never the
  empty string. So \<open>/?code=\<close> and \<open>/?code=&state=x\<close> give no code, and \<open>/?code=&code=v\<close> gives
  the later value \<open>v\<close>.
\<close>

theorem extract_code_skips_empty_value:
  "(CHR ''?'' \<in> set target \<longrightarrow>
      extract_code_from_callback_target target
        = first_code (filter (\<lambda>seg. seg \<noteq> ''code='') (split_amp (query_of target))))
   \<and> extract_code_from_callback_target target \<noteq> Inr (Some [])
   \<and> extract_code_from_callback_target ''/?code='' = Inr None
   \<and> extract_code_from_callback_target ''/?code=&state=x'' = Inr None
   \<and> extract_code_from_callback_target ''/?code=&code=v'' = Inr (Some ''v'')"
proof (intro conjI impI)
  assume "CHR ''?'' \<in> set target"
  then show "extract_code_from_callback_target target
        = first_code (filter (\<lambda>seg. seg \<noteq> ''code='') (split_amp (query_of target)))"
    by (simp add: extract_code_segments first_code_filter)
next
  show "extract_code_from_callback_target target \<noteq> Inr (Some [])"
    by (simp add: extract_code_segments first_code_nonempty)
next
  show "extract_code_from_callback_target ''/?code='' = Inr None"
    by (simp add: extract_code_segments query_of_def first_code_def is_code_segment_def)
next
  show "extract_code_from_callback_target ''/?code=&state=x'' = Inr None"
    by (simp add: extract_code_segments query_of_def first_code_def is_code_segment_def
        starts_with_def)
next
  show "extract_code_from_callback_target ''/?code=&code=v'' = Inr (Some ''v'')"
    by (simp add: extract_code_segments query_of_def first_code_def is_code_segment_def
        starts_with_def decode_value_def url_decode_v)
qed

theorem extract_code_skips_empty_value_witness:
  "CHR ''?'' \<in> set ''/?a=1&code=&code=v''
   \<and> extract_code_from_callback_target ''/?a=1&code=&code=v'' = first_code [''a=1'', ''code=v'']"
  using extract_code_skips_empty_value [of "''/?a=1&code=&code=v''"]
  by (simp add: query_of_def)

text \<open>
  Claim C4, as stated: the first segment whose key is \<open>code\<close> decides and its decoded value
  is returned. On \<open>/?code=&code=v\<close> that segment is \<open>code=\<close>, whose decoded value is empty,
  while the code skips it and returns \<open>v\<close>.
\<close>

theorem extract_code_first_code_counterexample:
  "extract_code_from_callback_target ''/?code=&code=v'' = Inr (Some ''v'')
   \<and> extract_spec ''/?code=&code=v'' = Inr (Some [])
   \<and> extract_code_from_callback_target ''/?code=&code=v'' \<noteq> extract_spec ''/?code=&code=v''"
proof -
  have a: "extract_code_from_callback_target ''/?code=&code=v'' = Inr (Some ''v'')"
    by (simp add: extract_code_segments query_of_def first_code_def is_code_segment_def
        starts_with_def decode_value_def url_decode_v)
  have b: "extract_spec ''/?code=&code=v'' = Inr (Some [])"
    by (simp add: extract_spec_def query_of_def starts_with_def decode_value_def url_decode_def
        url_decode_loop.simps)
  from a b show ?thesis by simp
qed

text \<open>
  Claim C4, amended. A target without \<open>?\<close> gives no code; a target whose query has no
  segment made of \<open>code=\<close> and at least one more character gives no code; otherwise the
  first such segment decides, and when its value percent-decodes to \<open>v\<close> the result is \<open>v\<close>.
  In particular \<open>/?code=abc123%2Ffoo%2Bbar&state=foo\<close> gives \<open>abc123/foo+bar\<close>.
\<close>

theorem extract_code_first_nonempty_code:
  "(CHR ''?'' \<notin> set target \<longrightarrow> extract_code_from_callback_target target = Inr None)
   \<and> (CHR ''?'' \<in> set target \<longrightarrow>
        List.find is_code_segment (split_amp (query_of target)) = None \<longrightarrow>
        extract_code_from_callback_target target = Inr None)
   \<and> (CHR ''?'' \<in> set target \<longrightarrow>
        List.find is_code_segment (split_amp (query_of target)) = Some seg \<longrightarrow>
        url_decode (drop 5 seg) = Inr v \<longrightarrow>
        extract_code_from_callback_target target = Inr (Some v))
   \<and> extract_code_from_callback_target ''/?code=abc123%2Ffoo%2Bbar&state=foo''
        = Inr (Some ''abc123/foo+bar'')"
proof (intro conjI impI)
  show "extract_code_from_callback_target ''/?code=abc123%2Ffoo%2Bbar&state=foo''
        = Inr (Some ''abc123/foo+bar'')"
    by (simp add: extract_code_segments query_of_def first_code_def is_code_segment_def
        starts_with_def decode_value_def url_decode_example)
qed (simp_all add: extract_code_segments first_code_def decode_value_def)

theorem extract_code_first_nonempty_code_witness:
  "CHR ''?'' \<notin> set ''/callback'' \<and> extract_code_from_callback_target ''/callback'' = Inr None
   \<and> CHR ''?'' \<in> set ''/?state=foo''
   \<and> List.find is_code_segment (split_amp (query_of ''/?state=foo'')) = None
   \<and> extract_code_from_callback_target ''/?state=foo'' = Inr None
   \<and> CHR ''?'' \<in> set ''/?state=s&code=a+b''
   \<and> List.find is_code_segment (split_amp (query_of ''/?state=s&code=a+b'')) = Some ''code=a+b''
   \<and> url_decode (drop 5 ''code=a+b'') = Inr ''a b''
   \<and> extract_code_from_callback_target ''/?state=s&code=a+b'' = Inr (Some ''a b'')"
proof -
  have f1: "List.find is_code_segment (split_amp (query_of ''/?state=foo'')) = None"
    by (simp add: query_of_def is_code_segment_def starts_with_def)
  have f2: "List.find is_code_segment (split_amp (query_of ''/?state=s&code=a+b'')) = Some ''code=a+b''"
    by (simp add: query_of_def is_code_segment_def starts_with_def)
  have d: "url_decode (drop 5 ''code=a+b'') = Inr ''a b''"
    by (simp add: url_decode_def url_decode_loop.simps)
  note t = extract_code_first_nonempty_code
  have a: "extract_code_from_callback_target ''/callback'' = Inr None"
    using t [of "''/callback''"] by simp
  have b: "extract_code_from_callback_target ''/?state=foo'' = Inr None"
    using t [of "''/?state=foo''"] f1 by simp
  have c: "extract_code_from_callback_target ''/?state=s&code=a+b'' = Inr (Some ''a b'')"
    using t [of "''/?state=s&code=a+b''" "''code=a+b''" "''a b''"] f2 d by simp
  from a b c f1 f2 d show ?thesis by simp
qed

section \<open>The listener on protocol and parse failures\<close>

lemma filter_eq_Nil_notin: "c \<notin> set xs \<Longrightarrow> filter (\<lambda>x. x = c) xs = []"
  by (induction xs) auto

lemma dropWhile_neq_at:
  "c \<notin> set pre \<Longrightarrow> dropWhile (\<lambda>x. x \<noteq> c) (pre @ c # rest) = c # rest"
  by (induction pre) auto

lemma takeWhile_neq_at:
  "c \<notin> set pre \<Longrightarrow> takeWhile (\<lambda>x. x \<noteq> c) (pre @ c # rest) = pre"
  by (induction pre) auto

lemma parse_request_line:
  "parse_request data =
     (if lacks_two_spaces (request_line data) then Inr None
      else extract_code_from_callback_target (request_target (request_line data)))"
proof -
  define line where "line = request_line data"
  have p: "parse_request data =
     (case find_char line (CHR '' '') 0 of
        None \<Rightarrow> Inr None
      | Some fs \<Rightarrow>
          (case find_char line (CHR '' '') (fs + 1) of
             None \<Rightarrow> Inr None
           | Some ss \<Rightarrow> extract_code_from_callback_target (take (ss - fs - 1) (drop (fs + 1) line))))"
    by (simp add: parse_request_def line_def request_line_def Let_def substr_def substr_from_def
        split: option.splits)
  show ?thesis
  proof (cases "find_char line (CHR '' '') 0")
    case None
    then have "CHR '' '' \<notin> set line"
      using find_char_None [of 0 line] by simp
    then have "lacks_two_spaces line"
      by (simp add: lacks_two_spaces_def filter_eq_Nil_notin)
    with None p show ?thesis
      by (simp add: line_def)
  next
    case (Some fs)
    from find_char_Some [OF Some]
    have l: "line = take fs line @ CHR '' '' # drop (fs + 1) line"
      and n: "CHR '' '' \<notin> set (take fs line)" and fl: "fs < length line"
      by simp_all
    let ?rest = "drop (fs + 1) line"
    have cnt: "length (filter (\<lambda>c. c = CHR '' '') line)
        = 1 + length (filter (\<lambda>c. c = CHR '' '') ?rest)"
      by (subst l) (simp add: filter_eq_Nil_notin [OF n])
    have "dropWhile (\<lambda>c. c \<noteq> CHR '' '') (take fs line @ CHR '' '' # ?rest) = CHR '' '' # ?rest"
      using n by (rule dropWhile_neq_at)
    then have dw: "tl (dropWhile (\<lambda>c. c \<noteq> CHR '' '') line) = ?rest"
      unfolding l [symmetric] by simp
    show ?thesis
    proof (cases "find_char line (CHR '' '') (fs + 1)")
      case None
      then have "CHR '' '' \<notin> set ?rest"
        using find_char_None [of "fs + 1" line] fl by simp
      then have "lacks_two_spaces line"
        by (simp add: lacks_two_spaces_def cnt filter_eq_Nil_notin)
      with None Some p show ?thesis
        by (simp add: line_def)
    next
      case (Some ss)
      from find_char_Some [OF Some]
      have r: "?rest = take (ss - (fs + 1)) ?rest @ CHR '' '' # drop (ss + 1) line"
        and m: "CHR '' '' \<notin> set (take (ss - (fs + 1)) ?rest)"
        by simp_all
      have "1 \<le> length (filter (\<lambda>c. c = CHR '' '') ?rest)"
        by (subst r) simp
      then have nm: "\<not> lacks_two_spaces line"
        unfolding lacks_two_spaces_def cnt by linarith
      have "takeWhile (\<lambda>c. c \<noteq> CHR '' '')
              (take (ss - (fs + 1)) ?rest @ CHR '' '' # drop (ss + 1) line)
            = take (ss - (fs + 1)) ?rest"
        using m by (rule takeWhile_neq_at)
      then have "takeWhile (\<lambda>c. c \<noteq> CHR '' '') ?rest = take (ss - (fs + 1)) ?rest"
        unfolding r [symmetric] .
      then have "request_target line = take (ss - fs - 1) ?rest"
        by (simp add: request_target_def dw)
      with nm Some \<open>find_char line (CHR '' '') 0 = Some fs\<close> p show ?thesis
        by (simp add: line_def)
    qed
  qed
qed


lemma parse_request_empty: "parse_request [] = Inr None"
  by (simp add: parse_request_line request_line_def lacks_two_spaces_def)

lemma wait_accepted:
  assumes "l_socket_ok os" and "l_bind_ok os" and "l_listen_ok os"
    and "l_accept os = Accepted" and "l_recv os = Received data"
    and "parse_request data = Inr code" and "l_send os \<noteq> Send_sigpipe"
  shows "wait_for_callback_code os port =
     (accepted_trace port @ [Ev_send response (l_send os), Ev_close Client, Ev_close Server],
      Returned code)"
proof -
  have "(if 0 < length (take 4095 data) then parse_request data else Inr None) = Inr code"
    using assms(6) parse_request_empty by (cases "data = []") simp_all
  with assms show ?thesis
    unfolding wait_for_callback_code_def accepted_trace_def Let_def
    by (cases "l_send os") simp_all
qed

lemma wait_sigpipe:
  assumes "l_socket_ok os" and "l_bind_ok os" and "l_listen_ok os"
    and "l_accept os = Accepted" and "l_recv os = Received data"
    and "parse_request data = Inr code" and "l_send os = Send_sigpipe"
  shows "wait_for_callback_code os port =
     (accepted_trace port @ [Ev_send response Send_sigpipe], Killed_by_sigpipe)"
proof -
  have "(if 0 < length (take 4095 data) then parse_request data else Inr None) = Inr code"
    using assms(6) parse_request_empty by (cases "data = []") simp_all
  with assms show ?thesis
    unfolding wait_for_callback_code_def accepted_trace_def Let_def
    by simp
qed

lemma parse_request_no_code:
  "parse_request (''GET /?state=x HTTP/1.1'' @ [CHR 0x0D, CHR 0x0A]) = Inr None"
proof -
  have l: "request_line (''GET /?state=x HTTP/1.1'' @ [CHR 0x0D, CHR 0x0A])
      = ''GET /?state=x HTTP/1.1''"
    by (simp add: request_line_def)
  have t: "request_target ''GET /?state=x HTTP/1.1'' = ''/?state=x''"
    by (simp add: request_target_def)
  show ?thesis
    unfolding parse_request_line l t
    by (simp add: lacks_two_spaces_def extract_code_segments query_of_def first_code_def
        is_code_segment_def starts_with_def)
qed

lemma parse_request_two_spaces: "parse_request ''x /?code=abc y'' = Inr (Some ''abc'')"
proof -
  have l: "request_line ''x /?code=abc y'' = ''x /?code=abc y''"
    by (simp add: request_line_def)
  have t: "request_target ''x /?code=abc y'' = ''/?code=abc''"
    by (simp add: request_target_def)
  show ?thesis
    unfolding parse_request_line l t
    by (simp add: lacks_two_spaces_def extract_code_segments query_of_def first_code_def
        is_code_segment_def starts_with_def decode_value_def url_decode_def
        url_decode_loop.simps)
qed

text \<open>
  Claim C3, as stated: on a malformed request line, a missing query string, a missing
  \<open>code\<close> parameter or an accept failure, the HTTP 200 response is sent, the client connection
  and the listening socket are closed, and absence is returned. Three runs of the code
  differ. When \<open>accept\<close> fails there is no client connection: the code closes the listening
  socket and returns, and nothing is sent. When the request has no \<open>code\<close> parameter and the
  client has reset the connection, \<open>send\<close> raises \<open>SIGPIPE\<close>, which the program leaves at its
  default disposition: the process ends inside \<open>send\<close>, nothing is closed and nothing is
  returned. And the only malformation of the request line that the code looks for is a
  missing space: the line \<open>x /?code=abc y\<close>, which has neither a method nor an HTTP version,
  yields the code \<open>abc\<close>.
\<close>

theorem wait_for_callback_code_failure_counterexample:
  "wait_for_callback_code
     \<lparr>l_socket_ok = True, l_bind_ok = True, l_listen_ok = True, l_accept = Accept_failed,
      l_recv = Recv_failed, l_send = Send_ok\<rparr> 2259
   = ([Ev_socket True, Ev_setsockopt, Ev_bind 2259 True, Ev_listen True,
       Ev_accept Accept_failed, Ev_close Server], Returned None)
   \<and> Ev_send response Send_ok \<notin> set (fst (wait_for_callback_code
     \<lparr>l_socket_ok = True, l_bind_ok = True, l_listen_ok = True, l_accept = Accept_failed,
      l_recv = Recv_failed, l_send = Send_ok\<rparr> 2259))
   \<and> Ev_close Client \<notin> set (fst (wait_for_callback_code
     \<lparr>l_socket_ok = True, l_bind_ok = True, l_listen_ok = True, l_accept = Accept_failed,
      l_recv = Recv_failed, l_send = Send_ok\<rparr> 2259))
   \<and> wait_for_callback_code
     \<lparr>l_socket_ok = True, l_bind_ok = True, l_listen_ok = True, l_accept = Accepted,
      l_recv = Received (''GET /?state=x HTTP/1.1'' @ [CHR 0x0D, CHR 0x0A]),
      l_send = Send_sigpipe\<rparr> 2259
   = ([Ev_socket True, Ev_setsockopt, Ev_bind 2259 True, Ev_listen True, Ev_accept Accepted,
       Ev_recv, Ev_send response Send_sigpipe], Killed_by_sigpipe)
   \<and> wait_for_callback_code
     \<lparr>l_socket_ok = True, l_bind_ok = True, l_listen_ok = True, l_accept = Accepted,
      l_recv = Received ''x /?code=abc y'', l_send = Send_ok\<rparr> 2259
   = ([Ev_socket True, Ev_setsockopt, Ev_bind 2259 True, Ev_listen True, Ev_accept Accepted,
       Ev_recv, Ev_send response Send_ok, Ev_close Client, Ev_close Server],
      Returned (Some ''abc''))"
proof -
  let ?os1 = "\<lparr>l_socket_ok = True, l_bind_ok = True, l_listen_ok = True,
      l_accept = Accept_failed, l_recv = Recv_failed, l_send = Send_ok\<rparr>"
  let ?os2 = "\<lparr>l_socket_ok = True, l_bind_ok = True, l_listen_ok = True, l_accept = Accepted,
      l_recv = Received (''GET /?state=x HTTP/1.1'' @ [CHR 0x0D, CHR 0x0A]),
      l_send = Send_sigpipe\<rparr>"
  let ?os3 = "\<lparr>l_socket_ok = True, l_bind_ok = True, l_listen_ok = True, l_accept = Accepted,
      l_recv = Received ''x /?code=abc y'', l_send = Send_ok\<rparr>"
  have w1: "wait_for_callback_code ?os1 2259
      = ([Ev_socket True, Ev_setsockopt, Ev_bind 2259 True, Ev_listen True,
          Ev_accept Accept_failed, Ev_close Server], Returned None)"
    by (simp add: wait_for_callback_code_def)
  have w2: "wait_for_callback_code ?os2 2259
      = (accepted_trace 2259 @ [Ev_send response Send_sigpipe], Killed_by_sigpipe)"
    by (rule wait_sigpipe [OF _ _ _ _ _ parse_request_no_code]) simp_all
  have w3: "wait_for_callback_code ?os3 2259
      = (accepted_trace 2259 @ [Ev_send response (l_send ?os3), Ev_close Client,
           Ev_close Server], Returned (Some ''abc''))"
    by (rule wait_accepted [OF _ _ _ _ _ parse_request_two_spaces]) simp_all
  show ?thesis
    unfolding w1 w2 w3 by (simp add: accepted_trace_def)
qed

text \<open>
  Claim C3, amended. Once the listening socket is created, bound and listening: when
  \<open>accept\<close> fails, the operation returns absence after closing the listening socket, without
  sending anything; when a client is accepted and \<open>recv\<close> delivers a request whose request
  line has fewer than two spaces, or whose target has no query string, or whose query has no
  \<open>code\<close> parameter with a value, and \<open>send\<close> does not raise \<open>SIGPIPE\<close>, the operation passes
  the fixed HTTP 200 response to \<open>send\<close>, closes the client connection, closes the listening
  socket, and returns absence.
\<close>

theorem wait_for_callback_code_failure:
  assumes "l_socket_ok os" and "l_bind_ok os" and "l_listen_ok os"
  shows "(l_accept os = Accept_failed \<longrightarrow>
            wait_for_callback_code os port
              = ([Ev_socket True, Ev_setsockopt, Ev_bind port True, Ev_listen True,
                  Ev_accept Accept_failed, Ev_close Server], Returned None))
    \<and> (l_accept os = Accepted \<longrightarrow> l_recv os = Received data \<longrightarrow>
          (lacks_two_spaces (request_line data)
           \<or> CHR ''?'' \<notin> set (request_target (request_line data))
           \<or> List.find is_code_segment
                (split_amp (query_of (request_target (request_line data)))) = None) \<longrightarrow>
          l_send os \<noteq> Send_sigpipe \<longrightarrow>
            wait_for_callback_code os port
              = (accepted_trace port
                   @ [Ev_send response (l_send os), Ev_close Client, Ev_close Server],
                 Returned None))"
proof (intro conjI impI)
  assume "l_accept os = Accept_failed"
  with assms show "wait_for_callback_code os port
      = ([Ev_socket True, Ev_setsockopt, Ev_bind port True, Ev_listen True,
          Ev_accept Accept_failed, Ev_close Server], Returned None)"
    by (simp add: wait_for_callback_code_def)
next
  assume a: "l_accept os = Accepted" and r: "l_recv os = Received data"
    and s: "l_send os \<noteq> Send_sigpipe"
    and f: "lacks_two_spaces (request_line data)
           \<or> CHR ''?'' \<notin> set (request_target (request_line data))
           \<or> List.find is_code_segment
                (split_amp (query_of (request_target (request_line data)))) = None"
  from f have p: "parse_request data = Inr None"
    by (auto simp: parse_request_line extract_code_segments first_code_def)
  from assms a r p s show "wait_for_callback_code os port
      = (accepted_trace port @ [Ev_send response (l_send os), Ev_close Client, Ev_close Server],
         Returned None)"
    by (rule wait_accepted)
qed

theorem wait_for_callback_code_failure_witness:
  "request_line (''GET /?state=x HTTP/1.1'' @ [CHR 0x0D, CHR 0x0A]) = ''GET /?state=x HTTP/1.1''
   \<and> request_target ''GET /?state=x HTTP/1.1'' = ''/?state=x''
   \<and> List.find is_code_segment (split_amp (query_of ''/?state=x'')) = None
   \<and> wait_for_callback_code
        \<lparr>l_socket_ok = True, l_bind_ok = True, l_listen_ok = True, l_accept = Accepted,
         l_recv = Received (''GET /?state=x HTTP/1.1'' @ [CHR 0x0D, CHR 0x0A]),
         l_send = Send_ok\<rparr> 2259
       = (accepted_trace 2259 @ [Ev_send response Send_ok, Ev_close Client, Ev_close Server],
          Returned None)
   \<and> lacks_two_spaces (request_line ''GET /?code=abc'')
   \<and> wait_for_callback_code
        \<lparr>l_socket_ok = True, l_bind_ok = True, l_listen_ok = True, l_accept = Accepted,
         l_recv = Received ''GET /?code=abc'', l_send = Send_failed\<rparr> 2259
       = (accepted_trace 2259 @ [Ev_send response Send_failed, Ev_close Client, Ev_close Server],
          Returned None)
   \<and> wait_for_callback_code
        \<lparr>l_socket_ok = True, l_bind_ok = True, l_listen_ok = True, l_accept = Accept_failed,
         l_recv = Recv_failed, l_send = Send_ok\<rparr> 2259
       = ([Ev_socket True, Ev_setsockopt, Ev_bind 2259 True, Ev_listen True,
           Ev_accept Accept_failed, Ev_close Server], Returned None)"
proof -
  let ?d1 = "''GET /?state=x HTTP/1.1'' @ [CHR 0x0D, CHR 0x0A]"
  let ?d2 = "''GET /?code=abc''"
  let ?os1 = "\<lparr>l_socket_ok = True, l_bind_ok = True, l_listen_ok = True, l_accept = Accepted,
         l_recv = Received ?d1, l_send = Send_ok\<rparr>"
  let ?os2 = "\<lparr>l_socket_ok = True, l_bind_ok = True, l_listen_ok = True, l_accept = Accepted,
         l_recv = Received ?d2, l_send = Send_failed\<rparr>"
  let ?os3 = "\<lparr>l_socket_ok = True, l_bind_ok = True, l_listen_ok = True,
         l_accept = Accept_failed, l_recv = Recv_failed, l_send = Send_ok\<rparr>"
  have l1: "request_line ?d1 = ''GET /?state=x HTTP/1.1''"
    by (simp add: request_line_def)
  have t1: "request_target ''GET /?state=x HTTP/1.1'' = ''/?state=x''"
    by (simp add: request_target_def)
  have f1: "List.find is_code_segment (split_amp (query_of ''/?state=x'')) = None"
    by (simp add: query_of_def is_code_segment_def starts_with_def)
  have m2: "lacks_two_spaces (request_line ?d2)"
    by (simp add: request_line_def lacks_two_spaces_def)
  have w1: "wait_for_callback_code ?os1 2259
       = (accepted_trace 2259 @ [Ev_send response Send_ok, Ev_close Client, Ev_close Server],
          Returned None)"
    using wait_for_callback_code_failure [of ?os1 2259 ?d1] l1 t1 f1 by simp
  have w2: "wait_for_callback_code ?os2 2259
       = (accepted_trace 2259 @ [Ev_send response Send_failed, Ev_close Client, Ev_close Server],
          Returned None)"
    using wait_for_callback_code_failure [of ?os2 2259 ?d2] m2 by simp
  have w3: "wait_for_callback_code ?os3 2259
       = ([Ev_socket True, Ev_setsockopt, Ev_bind 2259 True, Ev_listen True,
           Ev_accept Accept_failed, Ev_close Server], Returned None)"
    using wait_for_callback_code_failure [of ?os3 2259] by simp
  from l1 t1 f1 m2 w1 w2 w3 show ?thesis
    by (simp only: simp_thms)
qed

section \<open>The authorization URL\<close>

lemma fold_snoc_concat: "fold (\<lambda>c acc. acc @ f c) xs acc0 = acc0 @ concat (map f xs)"
  by (induction xs arbitrary: acc0) simp_all

lemma url_encode_concat: "url_encode raw = concat (map url_encode_char raw)"
  by (simp add: url_encode_def fold_snoc_concat)

lemma hex_upper_safe: "n < 16 \<Longrightarrow> url_safe (hex_upper ! n)"
proof -
  assume "n < 16"
  then have "hex_upper ! n \<in> set hex_upper"
    by (intro nth_mem) (simp add: hex_upper_def)
  moreover have "\<forall>c \<in> set hex_upper. url_safe c"
    by (simp add: hex_upper_def url_safe_def is_unreserved_def)
  ultimately show ?thesis by blast
qed

lemma url_encode_char_safe: "c' \<in> set (url_encode_char c) \<Longrightarrow> url_safe c'"
proof -
  have b: "(of_char c :: nat) < 256" by simp
  have "(of_char c :: nat) div 16 < 16"
    using b by arith
  then have h: "url_safe (hex_upper ! ((of_char c :: nat) div 16))"
    by (rule hex_upper_safe)
  have l: "url_safe (hex_upper ! ((of_char c :: nat) mod 16))"
    by (rule hex_upper_safe) simp
  show "c' \<in> set (url_encode_char c) \<Longrightarrow> url_safe c'"
    using h l by (auto simp: url_encode_char_def url_safe_def split: if_splits)
qed

lemma url_encode_safe: "c \<in> set (url_encode raw) \<Longrightarrow> url_safe c"
  by (auto simp: url_encode_concat dest: url_encode_char_safe)

lemma url_encode_no_amp: "CHR ''&'' \<notin> set (url_encode raw)"
  using url_encode_safe [of "CHR ''&''" raw] by (auto simp: url_safe_def is_unreserved_def)

lemma url_encode_no_eq: "CHR ''='' \<notin> set (url_encode raw)"
  using url_encode_safe [of "CHR ''=''" raw] by (auto simp: url_safe_def is_unreserved_def)


lemma split_amp_join:
  "\<forall>seg \<in> set segs. CHR ''&'' \<notin> set seg \<Longrightarrow> segs \<noteq> [] \<Longrightarrow> split_amp (join_amp segs) = segs"
proof (induction segs rule: join_amp.induct)
  case 1
  then show ?case by simp
next
  case (2 seg)
  then show ?case by (simp add: split_amp_no_amp)
next
  case (3 seg v va)
  then show ?case by (simp add: split_amp_append)
qed

lemma key_value_pair:
  "CHR ''='' \<notin> set k \<Longrightarrow> key_value (k @ CHR ''='' # v) = (k, v)"
  by (simp add: key_value_def takeWhile_neq_at dropWhile_neq_at)

lemma key_value_map:
  "\<forall>p \<in> set ps. CHR ''='' \<notin> set (fst p) \<Longrightarrow>
   map key_value (map (\<lambda>(k, v). k @ CHR ''='' # v) ps) = ps"
  by (induction ps) (auto simp: key_value_pair)

lemma url_encode_unreserved: "\<forall>c \<in> set s. is_unreserved c \<Longrightarrow> url_encode s = s"
  by (induction s) (simp_all add: url_encode_concat url_encode_char_def)

lemma url_encode_literals:
  "url_encode ''code'' = ''code''" "url_encode ''en_US'' = ''en_US''"
  "url_encode ''select_account'' = ''select_account''" "url_encode ''S256'' = ''S256''"
  by (rule url_encode_unreserved, simp add: is_unreserved_def)+

lemma upt_0_16: "[0..<16] = [0, 1, 2, 3, 4, 5, 6, 7, 8, 9, 10, 11, 12, 13, 14, 15]"
  by (simp add: upt_rec)

lemma upt_0_10: "[0..<10] = [0, 1, 2, 3, 4, 5, 6, 7, 8, 9]"
  by (simp add: upt_rec)

lemma hex_upper_digit:
  assumes "d < 16"
  shows "hex_val (hex_upper ! d) = Some d \<and> \<not> is_space (hex_upper ! d)
     \<and> hex_upper ! d \<noteq> CHR 0x00 \<and> hex_upper ! d \<noteq> CHR ''-'' \<and> hex_upper ! d \<noteq> CHR ''+''"
proof -
  have "\<forall>d \<in> set [0..<16]. hex_val (hex_upper ! d) = Some d \<and> \<not> is_space (hex_upper ! d)
     \<and> hex_upper ! d \<noteq> CHR 0x00 \<and> hex_upper ! d \<noteq> CHR ''-'' \<and> hex_upper ! d \<noteq> CHR ''+''"
    unfolding upt_0_16 by (simp add: hex_upper_def hex_val_def is_space_def)
  with assms show ?thesis by simp
qed

lemma stoi16_hex_upper:
  assumes "d1 < 16" and "d2 < 16"
  shows "stoi16 [hex_upper ! d1, hex_upper ! d2] = Inr (int (d1 * 16 + d2))"
proof -
  note h1 = hex_upper_digit [OF assms(1)] and h2 = hex_upper_digit [OF assms(2)]
  have "d1 * 16 + d2 < 256" using assms by simp
  then have r: "\<not> (int (d1 * 16 + d2) < - (2 ^ 31) \<or> 2 ^ 31 - 1 < int (d1 * 16 + d2))"
    by simp
  have p: "parse_hex_digits [hex_upper ! d1, hex_upper ! d2] = Some (d1 * 16 + d2)"
    using h1 h2 by (simp add: parse_hex_digits_def is_hex_def)
  show ?thesis
    using h1 h2 r by (simp add: stoi16_def strip_0x_def p Let_def del: of_nat_add of_nat_mult)
qed


lemma unreserved_not_special: "is_unreserved c \<Longrightarrow> c \<noteq> CHR ''%'' \<and> c \<noteq> CHR ''+''"
  by (auto simp: is_unreserved_def)


lemma url_encode_char_decode:
  "url_decode_loop (pre @ url_encode_char c @ post) (length pre) out
     = url_decode_loop (pre @ url_encode_char c @ post) (length pre + length (url_encode_char c))
         (out @ [c])"
proof (cases "is_unreserved c")
  case True
  then show ?thesis
    using unreserved_not_special [OF True]
    by (subst url_decode_loop.simps) (simp add: url_encode_char_def)
next
  case False
  let ?d1 = "(of_char c :: nat) div 16" and ?d2 = "(of_char c :: nat) mod 16"
  have b: "(of_char c :: nat) < 256" by simp
  have d1: "?d1 < 16" using b by arith
  have d2: "?d2 < 16" by simp
  have s: "stoi16 [hex_upper ! ?d1, hex_upper ! ?d2] = Inr (int (of_char c))"
    using stoi16_hex_upper [OF d1 d2] by simp
  have e: "url_encode_char c = [CHR ''%'', hex_upper ! ?d1, hex_upper ! ?d2]"
    using False by (simp add: url_encode_char_def)
  have sub: "substr (pre @ CHR ''%'' # hex_upper ! ?d1 # hex_upper ! ?d2 # post) (Suc (length pre)) 2
      = [hex_upper ! ?d1, hex_upper ! ?d2]"
    by (simp add: substr_def)
  have c: "char_of (int (of_char c :: nat)) = c"
    by simp
  show ?thesis
    unfolding e
    by (subst url_decode_loop.simps) (simp add: sub s c)
qed

lemma url_decode_loop_encode:
  "url_decode_loop (pre @ url_encode v) (length pre) out = Inr (out @ v)"
proof (induction v arbitrary: pre out)
  case Nil
  show ?case
    by (subst url_decode_loop.simps) (simp add: url_encode_concat)
next
  case (Cons c v)
  have "url_decode_loop (pre @ url_encode (c # v)) (length pre) out
      = url_decode_loop ((pre @ url_encode_char c) @ url_encode v) (length (pre @ url_encode_char c))
          (out @ [c])"
    using url_encode_char_decode [of pre c "url_encode v" out]
    by (simp add: url_encode_concat)
  also have "\<dots> = Inr ((out @ [c]) @ v)"
    by (rule Cons.IH)
  finally show ?case by simp
qed

lemma url_decode_encode: "url_decode (url_encode v) = Inr v"
  using url_decode_loop_encode [of "[]" v "[]"] by (simp add: url_decode_def)

lemma of_char_punct:
  "(of_char c :: nat) = 45 \<longleftrightarrow> c = CHR ''-''" "(of_char c :: nat) = 95 \<longleftrightarrow> c = CHR ''_''"
  "(of_char c :: nat) = 46 \<longleftrightarrow> c = CHR ''.''" "(of_char c :: nat) = 126 \<longleftrightarrow> c = CHR ''~''"
proof -
  have "(45 :: nat) = of_char (CHR ''-'')" "(95 :: nat) = of_char (CHR ''_'')"
    "(46 :: nat) = of_char (CHR ''.'')" "(126 :: nat) = of_char (CHR ''~'')"
    by simp_all
  then show "(of_char c :: nat) = 45 \<longleftrightarrow> c = CHR ''-''" "(of_char c :: nat) = 95 \<longleftrightarrow> c = CHR ''_''"
    "(of_char c :: nat) = 46 \<longleftrightarrow> c = CHR ''.''" "(of_char c :: nat) = 126 \<longleftrightarrow> c = CHR ''~''"
    by (simp_all only: of_char_eq_iff)
qed

lemma is_unreserved_iff: "is_unreserved c \<longleftrightarrow> c \<in> set unreserved_chars"
proof -
  have m: "map of_char unreserved_chars
      = ([65..<91] @ [97..<123] @ [48..<58] @ [45, 95, 46, 126] :: nat list)"
    by (simp add: unreserved_chars_def)
  have "c \<in> set unreserved_chars \<longleftrightarrow> (of_char c :: nat) \<in> set (map of_char unreserved_chars)"
    by (auto simp: image_iff)
  also have "\<dots> \<longleftrightarrow> (of_char c :: nat) \<in> {65..<91} \<union> {97..<123} \<union> {48..<58} \<union> {45, 95, 46, 126}"
    unfolding m by (simp only: set_append set_upt list.set Un_assoc Un_insert_right Un_empty_right)
  also have "\<dots> \<longleftrightarrow> is_unreserved c"
    by (auto simp: is_unreserved_def of_char_punct)
  finally show ?thesis by simp
qed

lemma url_encode_spec: "url_encode v = percent_encode_spec v"
  unfolding url_encode_concat percent_encode_spec_def url_encode_char_def is_unreserved_iff
    hex_upper_def
  by (rule refl)

lemma url_encode_append: "url_encode (a @ b) = url_encode a @ url_encode b"
  by (simp add: url_encode_concat)

lemma digit_char:
  assumes "d < 10"
  shows "(of_char (''0123456789'' ! d) :: nat) = 48 + d \<and> ''0123456789'' ! d \<in> set ''0123456789''"
proof -
  have "\<forall>d \<in> set [0..<10]. (of_char (''0123456789'' ! d) :: nat) = 48 + d
      \<and> ''0123456789'' ! d \<in> set ''0123456789''"
    unfolding upt_0_10 by simp
  with assms show ?thesis by simp
qed

lemma to_string_nat_digits: "set (to_string_nat n) \<subseteq> set ''0123456789''"
proof (induction n rule: to_string_nat.induct)
  case (1 n)
  show ?case
  proof (cases "n < 10")
    case True
    then show ?thesis
      using digit_char [OF True] by (subst to_string_nat.simps) simp
  next
    case False
    have "n mod 10 < 10" by simp
    from digit_char [OF this] "1.IH" [OF False] False show ?thesis
      by (subst to_string_nat.simps) simp
  qed
qed

lemma decimal_value_snoc: "decimal_value (s @ [c]) = 10 * decimal_value s + ((of_char c :: nat) - 48)"
  by (simp add: decimal_value_def)

lemma to_string_nat_value: "decimal_value (to_string_nat n) = n"
proof (induction n rule: to_string_nat.induct)
  case (1 n)
  show ?case
  proof (cases "n < 10")
    case True
    then show ?thesis
      using digit_char [OF True] by (subst to_string_nat.simps) (simp add: decimal_value_def)
  next
    case False
    have "n mod 10 < 10" by simp
    from digit_char [OF this] "1.IH" [OF False] False show ?thesis
      by (subst to_string_nat.simps) (simp add: decimal_value_snoc)
  qed
qed

lemma to_string_nat_nonempty: "to_string_nat n \<noteq> []"
  by (subst to_string_nat.simps) simp

lemma to_string_nat_leading: "0 < n \<Longrightarrow> hd (to_string_nat n) \<noteq> CHR ''0''"
proof (induction n rule: to_string_nat.induct)
  case (1 n)
  show ?case
  proof (cases "n < 10")
    case True
    with "1.prems" have "(of_char (''0123456789'' ! n) :: nat) \<noteq> of_char (CHR ''0'')"
      using digit_char [OF True] by simp
    then have "''0123456789'' ! n \<noteq> CHR ''0''" by auto
    with True show ?thesis by (subst to_string_nat.simps) simp
  next
    case False
    then have "0 < n div 10" by simp
    from "1.IH" [OF False this] False show ?thesis
      by (subst to_string_nat.simps) (simp add: to_string_nat_nonempty)
  qed
qed

lemma to_string_port:
  "to_string (uint (p :: u16)) = to_string_nat (unat p)"
  by (simp add: to_string_def)

lemma to_string_2259: "to_string (uint (2259 :: u16)) = ''2259''"
  by (simp add: to_string_def to_string_nat.simps)

lemma digits_unreserved:
  assumes "set s \<subseteq> set ''0123456789''"
  shows "\<forall>c \<in> set s. is_unreserved c"
proof -
  have "\<forall>c \<in> set ''0123456789''. is_unreserved c"
    by (simp add: is_unreserved_def)
  with assms show ?thesis by blast
qed

lemma redirect_uri_encoded:
  "url_encode (''http://localhost:'' @ to_string (uint (p :: u16)))
     = ''http%3A%2F%2Flocalhost%3A'' @ to_string (uint p)"
proof -
  have "url_encode ''http://localhost:'' = ''http%3A%2F%2Flocalhost%3A''"
    by (simp add: url_encode_concat url_encode_char_def is_unreserved_def hex_upper_def)
  moreover have "url_encode (to_string (uint p)) = to_string (uint p)"
    unfolding to_string_port
    by (rule url_encode_unreserved) (rule digits_unreserved, rule to_string_nat_digits)
  ultimately show ?thesis
    by (simp only: url_encode_append)
qed

lemma build_auth_url_join:
  "build_auth_url w pkce callback_port provider
     = auth_endpoint
       @ join_amp (map (\<lambda>(k, v). k @ CHR ''='' # url_encode v)
                    (auth_params w pkce callback_port provider))"
  by (simp add: build_auth_url_def auth_params_def auth_endpoint_def Let_def url_encode_literals)

lemma build_auth_url_split:
  "map key_value (split_amp (drop 35 (build_auth_url w pkce callback_port provider)))
     = map (\<lambda>(k, v). (k, url_encode v)) (auth_params w pkce callback_port provider)"
proof -
  let ?ps = "map (\<lambda>(k, v). (k, url_encode v)) (auth_params w pkce callback_port provider)"
  let ?segs = "map (\<lambda>(k, v). k @ CHR ''='' # v) ?ps"
  have j: "build_auth_url w pkce callback_port provider = auth_endpoint @ join_amp ?segs"
    by (simp add: build_auth_url_join auth_params_def)
  have na: "\<forall>seg \<in> set ?segs. CHR ''&'' \<notin> set seg"
    by (simp add: auth_params_def url_encode_no_amp)
  have "split_amp (join_amp ?segs) = ?segs"
    using na by (rule split_amp_join) (simp add: auth_params_def)
  moreover have "map key_value ?segs = ?ps"
    by (rule key_value_map) (simp add: auth_params_def)
  moreover have "drop 35 (auth_endpoint @ join_amp ?segs) = join_amp ?segs"
    by (simp add: auth_endpoint_def)
  ultimately show ?thesis
    by (simp only: j)
qed

text \<open>
  Claim C5. For every challenge pair, port and provider, the URL is the fixed authorization
  endpoint followed by the eleven parameters \<open>response_type\<close>, \<open>device_id\<close>, \<open>scope\<close>,
  \<open>client_id\<close>, \<open>redirect_uri\<close>, \<open>ui_locales\<close>, \<open>nonce\<close>, \<open>prompt\<close>, \<open>code_challenge\<close>,
  \<open>code_challenge_method\<close>, \<open>idp_id\<close> in this order, joined by \<open>&\<close>, each as \<open>key=\<close> and the
  percent-encoding of its value; cutting the query at \<open>&\<close> and \<open>=\<close> gives back exactly these
  keys and encoded values. Percent-encoding is the one of the specification (unreserved
  characters unchanged, every other byte as \<open>%\<close> and two upper-case hexadecimal digits), and
  percent-decoding an encoded value gives the value back. The redirect URI is
  \<open>http://localhost:\<close> followed by the port in decimal (digits only, no leading zero, of the
  port's value), encoded as \<open>http%3A%2F%2Flocalhost%3A\<close> and these digits.
\<close>

theorem build_auth_url_parameters:
  "build_auth_url w pkce callback_port provider
     = ''https://login.nvidia.com/authorize?''
       @ join_amp (map (\<lambda>(k, v). k @ CHR ''='' # url_encode v)
                    (auth_params w pkce callback_port provider))
   \<and> take 35 (build_auth_url w pkce callback_port provider) = ''https://login.nvidia.com/authorize?''
   \<and> map key_value (split_amp (drop 35 (build_auth_url w pkce callback_port provider)))
     = [(''response_type'', ''code''),
        (''device_id'', url_encode (device_id w)),
        (''scope'', url_encode kScopes),
        (''client_id'', url_encode kClientId),
        (''redirect_uri'', ''http%3A%2F%2Flocalhost%3A'' @ to_string (uint callback_port)),
        (''ui_locales'', ''en_US''),
        (''nonce'', url_encode (generate_nonce w)),
        (''prompt'', ''select_account''),
        (''code_challenge'', url_encode (challenge pkce)),
        (''code_challenge_method'', ''S256''),
        (''idp_id'', url_encode (idp_id provider))]
   \<and> url_encode v = percent_encode_spec v
   \<and> url_decode (url_encode v) = Inr v
   \<and> to_string (uint callback_port) \<noteq> []
   \<and> set (to_string (uint callback_port)) \<subseteq> set ''0123456789''
   \<and> decimal_value (to_string (uint callback_port)) = unat callback_port
   \<and> (callback_port \<noteq> 0 \<longrightarrow> hd (to_string (uint callback_port)) \<noteq> CHR ''0'')
   \<and> to_string (uint (2259 :: u16)) = ''2259''
   \<and> url_encode kScopes = ''openid%20consent%20email%20tk_client%20age''"
proof (intro conjI impI)
  show j: "build_auth_url w pkce callback_port provider
     = ''https://login.nvidia.com/authorize?''
       @ join_amp (map (\<lambda>(k, v). k @ CHR ''='' # url_encode v)
                    (auth_params w pkce callback_port provider))"
    using build_auth_url_join [of w pkce callback_port provider] by (simp add: auth_endpoint_def)
  show "take 35 (build_auth_url w pkce callback_port provider) = ''https://login.nvidia.com/authorize?''"
    by (simp add: j)
  show "map key_value (split_amp (drop 35 (build_auth_url w pkce callback_port provider)))
     = [(''response_type'', ''code''),
        (''device_id'', url_encode (device_id w)),
        (''scope'', url_encode kScopes),
        (''client_id'', url_encode kClientId),
        (''redirect_uri'', ''http%3A%2F%2Flocalhost%3A'' @ to_string (uint callback_port)),
        (''ui_locales'', ''en_US''),
        (''nonce'', url_encode (generate_nonce w)),
        (''prompt'', ''select_account''),
        (''code_challenge'', url_encode (challenge pkce)),
        (''code_challenge_method'', ''S256''),
        (''idp_id'', url_encode (idp_id provider))]"
    using build_auth_url_split [of w pkce callback_port provider]
      redirect_uri_encoded [of callback_port]
    by (simp add: auth_params_def url_encode_literals)
  show "url_encode v = percent_encode_spec v"
    by (rule url_encode_spec)
  show "url_decode (url_encode v) = Inr v"
    by (rule url_decode_encode)
  show "to_string (uint callback_port) \<noteq> []"
    by (simp only: to_string_port to_string_nat_nonempty not_False_eq_True)
  show "set (to_string (uint callback_port)) \<subseteq> set ''0123456789''"
    unfolding to_string_port by (rule to_string_nat_digits)
  show "decimal_value (to_string (uint callback_port)) = unat callback_port"
    unfolding to_string_port by (rule to_string_nat_value)
  show "to_string (uint (2259 :: u16)) = ''2259''"
    by (rule to_string_2259)
  show "url_encode kScopes = ''openid%20consent%20email%20tk_client%20age''"
    by (simp add: kScopes_def url_encode_concat url_encode_char_def is_unreserved_def hex_upper_def)
next
  assume "callback_port \<noteq> 0"
  then have "0 < unat callback_port"
    by (simp add: unat_gt_0)
  then show "hd (to_string (uint callback_port)) \<noteq> CHR ''0''"
    unfolding to_string_port by (rule to_string_nat_leading)
qed

theorem build_auth_url_parameters_witness:
  "(2259 :: u16) \<noteq> 0 \<and> hd (to_string (uint (2259 :: u16))) \<noteq> CHR ''0''"
  using build_auth_url_parameters [where callback_port = 2259]
  by simp

section \<open>The device identifier\<close>

text \<open>
  Claim C9. The device identifier does not depend on the run: for any two states of the
  clock and the random engine it is the same string, the \<open>base64url\<close> form of the SHA-256
  digest of the fixed label, and the \<open>device_id\<close> parameter of any two authorization URLs is
  the same.
\<close>

theorem device_id_deterministic:
  "device_id w1 = device_id w2
   \<and> device_id w1 = base64url (sha256 ''opennow-rewrite-device'')
   \<and> map_of (map key_value (split_amp (drop 35 (build_auth_url w1 pkce1 port1 provider1))))
         ''device_id''
     = map_of (map key_value (split_amp (drop 35 (build_auth_url w2 pkce2 port2 provider2))))
         ''device_id''"
proof -
  have d: "device_id w1 = device_id w2"
    by (simp add: device_id_def)
  have m: "map_of (map key_value (split_amp (drop 35 (build_auth_url w pkce port provider))))
         ''device_id'' = Some (url_encode (device_id w))" for w pkce port provider
    using build_auth_url_split [of w pkce port provider]
    by (simp add: auth_params_def)
  show ?thesis
    using d by (simp add: m) (simp add: device_id_def)
qed

section \<open>\<open>base64url\<close> is unpadded URL-safe base64\<close>

lemma or_push_bit_nat: "x < 2 ^ k \<Longrightarrow> push_bit k y OR x = push_bit k y + (x :: nat)"
proof -
  assume "x < 2 ^ k"
  then have x: "take_bit k x = x" by (simp add: take_bit_nat_eq_self)
  have "push_bit k y AND take_bit k x = 0"
    by (rule bit_eqI) (auto simp: bit_simps)
  then have "push_bit k y + take_bit k x = push_bit k y OR take_bit k x"
    by (rule disjunctive_add_eq_or)
  then show ?thesis by (simp only: x)
qed

lemma unat_and_63: "unat (w AND 0x3f :: u32) = unat w mod 64"
proof -
  have m: "(0x3f :: u32) = mask 6" by (simp add: mask_eq_exp_minus_1)
  have "unat (w AND mask 6) = unat (take_bit 6 w)"
    by (simp only: take_bit_eq_mask)
  also have "\<dots> = take_bit 6 (unat w)"
    by (rule unsigned_take_bit_eq)
  also have "\<dots> = unat w mod 2 ^ 6"
    by (rule take_bit_eq_mod)
  finally show ?thesis by (simp only: m) simp
qed

lemma unat_drop_and_63: "unat (drop_bit k w AND 0x3f :: u32) = unat w div 2 ^ k mod 64"
proof -
  have "unat (drop_bit k w) = drop_bit k (unat w)"
    by (rule unat_drop_bit_eq)
  also have "\<dots> = unat w div 2 ^ k"
    by (rule drop_bit_eq_div)
  finally show ?thesis by (simp only: unat_and_63)
qed

lemma unat_u8_less: "unat (a :: u8) < 256"
  using unsigned_less [of a] by simp

lemma unat_ucast_u8: "unat (ucast (a :: u8) :: u32) = unat a"
proof -
  have "unat (ucast a :: u32) = take_bit 32 (unat a)"
    using unsigned_ucast_eq [of a, where 'a = nat and 'c = 32] by simp
  also have "\<dots> = unat a"
    using unat_u8_less [of a] by (simp add: take_bit_nat_eq_self)
  finally show ?thesis .
qed

lemma unat_push_u8:
  "k \<le> 24 \<Longrightarrow> unat (push_bit k (ucast (a :: u8) :: u32)) = unat a * 2 ^ k"
proof -
  assume k: "k \<le> 24"
  have "unat a * 2 ^ k < 2 ^ 8 * 2 ^ k"
    using unat_u8_less [of a] by simp
  also have "\<dots> = 2 ^ (8 + k)" by (simp add: power_add)
  also have "\<dots> \<le> (2::nat) ^ 32" using k by (intro power_increasing) simp_all
  finally have lt: "unat a * 2 ^ k < 2 ^ 32" .
  have "unat (push_bit k (ucast a :: u32)) = take_bit 32 (push_bit k (unat (ucast a :: u32)))"
    using unsigned_push_bit_eq [of k "ucast a :: u32", where 'a = nat] by simp
  also have "\<dots> = take_bit 32 (unat a * 2 ^ k)"
    by (simp only: unat_ucast_u8 push_bit_eq_mult)
  also have "\<dots> = unat a * 2 ^ k"
    using lt by (simp only: take_bit_nat_eq_self)
  finally show ?thesis .
qed

lemma unat_chunk:
  "unat (push_bit 16 (ucast (a :: u8) :: u32) OR push_bit 8 (ucast (b :: u8)) OR ucast (c :: u8))
   = unat a * 65536 + unat b * 256 + unat c"
proof -
  have bc: "push_bit 8 (unat b) OR unat c = push_bit 8 (unat b) + unat c"
    by (rule or_push_bit_nat) (use unat_u8_less [of c] in simp)
  have "unat b * 256 + unat c < 2 ^ 16"
    using unat_u8_less [of b] unat_u8_less [of c] by simp
  then have abc: "push_bit 16 (unat a) OR (unat b * 256 + unat c)
      = push_bit 16 (unat a) + (unat b * 256 + unat c)"
    by (rule or_push_bit_nat)
  have "unat (push_bit 16 (ucast a :: u32) OR push_bit 8 (ucast b) OR ucast c)
      = unat (push_bit 16 (ucast a :: u32)) OR (unat (push_bit 8 (ucast b :: u32)) OR unat (ucast c :: u32))"
    by (simp only: unsigned_or_eq or.assoc)
  also have "\<dots> = unat a * 2 ^ 16 OR (unat b * 2 ^ 8 OR unat c)"
    by (simp add: unat_push_u8 unat_ucast_u8)
  also have "\<dots> = push_bit 16 (unat a) OR (push_bit 8 (unat b) OR unat c)"
    by (simp only: push_bit_eq_mult)
  also have "\<dots> = push_bit 16 (unat a) OR (unat b * 256 + unat c)"
    by (simp only: bc) (simp add: push_bit_eq_mult)
  also have "\<dots> = push_bit 16 (unat a) + (unat b * 256 + unat c)"
    by (rule abc)
  finally show ?thesis by (simp add: push_bit_eq_mult)
qed


lemma alphabet_url: "k < 64 \<Longrightarrow> alphabet ! k = to_url_alphabet (b64_alphabet ! k)"
proof -
  have "map to_url_alphabet b64_alphabet = alphabet"
    by (simp add: alphabet_def b64_alphabet_def to_url_alphabet_def)
  moreover assume "k < 64"
  then have "k < length b64_alphabet" by (simp add: b64_alphabet_def)
  ultimately show ?thesis
    by (metis nth_map)
qed

lemma b64_no_pad: "k < 64 \<Longrightarrow> b64_alphabet ! k \<noteq> CHR ''=''"
proof -
  assume "k < 64"
  then have "b64_alphabet ! k \<in> set b64_alphabet"
    by (intro nth_mem) (simp add: b64_alphabet_def)
  moreover have "CHR ''='' \<notin> set b64_alphabet"
    by (simp add: b64_alphabet_def)
  ultimately show ?thesis by metis
qed


lemma unat_and_mask_u32: "unat (w AND mask k :: u32) = unat w mod 2 ^ k"
proof -
  have "unat (w AND mask k) = unat (take_bit k w)"
    by (simp only: take_bit_eq_mask)
  also have "\<dots> = take_bit k (unat w)"
    by (rule unsigned_take_bit_eq)
  also have "\<dots> = unat w mod 2 ^ k"
    by (rule take_bit_eq_mod)
  finally show ?thesis .
qed

lemma unat_and_3: "unat (w AND 0x03 :: u32) = unat w mod 4"
  using unat_and_mask_u32 [of w 2] by (simp add: mask_eq_exp_minus_1)

lemma unat_and_15: "unat (w AND 0x0f :: u32) = unat w mod 16"
  using unat_and_mask_u32 [of w 4] by (simp add: mask_eq_exp_minus_1)

lemma unat_drop_u32: "unat (drop_bit k (w :: u32)) = unat w div 2 ^ k"
proof -
  have "unat (drop_bit k w) = drop_bit k (unat w)"
    by (rule unat_drop_bit_eq)
  also have "\<dots> = unat w div 2 ^ k"
    by (rule drop_bit_eq_div)
  finally show ?thesis .
qed

lemma unat_push_u32:
  "unat w * 2 ^ k < 2 ^ 32 \<Longrightarrow> unat (push_bit k (w :: u32)) = unat w * 2 ^ k"
proof -
  assume lt: "unat w * 2 ^ k < 2 ^ 32"
  have "unat (push_bit k w) = take_bit 32 (push_bit k (unat w))"
    using unsigned_push_bit_eq [of k w, where 'a = nat] by simp
  also have "\<dots> = take_bit 32 (unat w * 2 ^ k)"
    by (simp only: push_bit_eq_mult)
  also have "\<dots> = unat w * 2 ^ k"
    using lt by (simp only: take_bit_nat_eq_self)
  finally show ?thesis .
qed

lemma idx_tail_first: "unat (drop_bit 2 (ucast (a :: u8) :: u32) AND 0x3f) = unat a div 4"
  using unat_u8_less [of a] by (simp add: unat_drop_and_63 unat_ucast_u8)

lemma idx_tail_one: "unat (push_bit 4 ((ucast (a :: u8) :: u32) AND 0x03)) = unat a mod 4 * 16"
proof -
  have "unat ((ucast a :: u32) AND 0x03) * 2 ^ 4 < 2 ^ 32"
    by (simp add: unat_and_3 unat_ucast_u8)
  then have "unat (push_bit 4 ((ucast a :: u32) AND 0x03)) = unat ((ucast a :: u32) AND 0x03) * 2 ^ 4"
    by (rule unat_push_u32)
  then show ?thesis
    by (simp only: unat_and_3 unat_ucast_u8) simp
qed

lemma idx_tail_last: "unat (push_bit 2 ((ucast (b :: u8) :: u32) AND 0x0f)) = unat b mod 16 * 4"
proof -
  have "unat ((ucast b :: u32) AND 0x0f) * 2 ^ 2 < 2 ^ 32"
    by (simp add: unat_and_15 unat_ucast_u8)
  then have "unat (push_bit 2 ((ucast b :: u32) AND 0x0f)) = unat ((ucast b :: u32) AND 0x0f) * 2 ^ 2"
    by (rule unat_push_u32)
  then show ?thesis
    by (simp only: unat_and_15 unat_ucast_u8) simp
qed

lemma idx_tail_mid:
  "unat (push_bit 4 ((ucast (a :: u8) :: u32) AND 0x03) OR (drop_bit 4 (ucast (b :: u8) :: u32) AND 0x0f))
   = unat a mod 4 * 16 + unat b div 16"
proof -
  let ?y = "unat (drop_bit 4 (ucast b :: u32) AND 0x0f)"
  have y: "?y = unat b div 16"
    using unat_u8_less [of b] by (simp add: unat_and_15 unat_drop_u32 unat_ucast_u8)
  have "?y < 2 ^ 4"
    using unat_u8_less [of b] by (simp add: y)
  then have d: "push_bit 4 (unat a mod 4) OR ?y = push_bit 4 (unat a mod 4) + ?y"
    by (rule or_push_bit_nat)
  have "unat (push_bit 4 ((ucast a :: u32) AND 0x03) OR (drop_bit 4 (ucast b :: u32) AND 0x0f))
      = unat (push_bit 4 ((ucast a :: u32) AND 0x03)) OR ?y"
    by (rule unsigned_or_eq)
  also have "\<dots> = unat a mod 4 * 16 OR ?y"
    by (simp only: idx_tail_one)
  also have "\<dots> = push_bit 4 (unat a mod 4) OR ?y"
    by (simp only: push_bit_eq_mult) simp
  also have "\<dots> = push_bit 4 (unat a mod 4) + ?y"
    by (rule d)
  also have "\<dots> = unat a mod 4 * 16 + unat b div 16"
    by (simp only: push_bit_eq_mult y) simp
  finally show ?thesis .
qed


lemma sextet_one:
  fixes A :: nat
  assumes "A < 256"
  shows "A * 16 div 64 ^ 1 mod 64 = A div 4" and "A * 16 div 64 ^ 0 mod 64 = A mod 4 * 16"
proof -
  have "A * 16 div 64 = A div 4"
    using div_mult_mult2 [of 16 A 4] by simp
  moreover have "A div 4 < 64" using assms by simp
  ultimately show "A * 16 div 64 ^ 1 mod 64 = A div 4" by simp
  have "A * 16 mod (4 * 16) = A mod 4 * 16"
    by (rule mod_mult_mult2)
  then show "A * 16 div 64 ^ 0 mod 64 = A mod 4 * 16" by simp
qed

lemma sextet_two:
  fixes A B :: nat
  assumes "A < 256" and "B < 256"
  shows "(A * 256 + B) * 4 div 64 ^ 2 mod 64 = A div 4"
    and "(A * 256 + B) * 4 div 64 ^ 1 mod 64 = A mod 4 * 16 + B div 16"
    and "(A * 256 + B) * 4 div 64 ^ 0 mod 64 = B mod 16 * 4"
proof -
  have d4: "(A * 256 + B) * 4 div (1024 * 4) = (A * 256 + B) div 1024"
    by (rule div_mult_mult2) simp
  have "(A * 256 + B) div 1024 = (A * 256 + B) div 256 div 4"
    by (simp add: div_mult2_eq)
  also have "(A * 256 + B) div 256 = A"
    using assms(2) by simp
  finally have "(A * 256 + B) * 4 div 4096 = A div 4"
    using d4 by simp
  moreover have "A div 4 < 64" using assms by simp
  ultimately show "(A * 256 + B) * 4 div 64 ^ 2 mod 64 = A div 4" by simp
  have "(A * 256 + B) * 4 div (16 * 4) = (A * 256 + B) div 16"
    by (rule div_mult_mult2) simp
  moreover have "(A * 256 + B) div 16 = A * 16 + B div 16"
    by simp
  moreover have "(A * 16 + B div 16) mod 64 = A mod 4 * 16 + B div 16"
  proof -
    have b: "B div 16 < 16" using assms(2) by simp
    define q r where "q = A div 4" and "r = A mod 4"
    have "A = q * 4 + r" by (simp add: q_def r_def)
    then have "A * 16 + B div 16 = (r * 16 + B div 16) + q * 64"
      by simp
    then have e: "A * 16 + B div 16 = (A mod 4 * 16 + B div 16) + (A div 4) * 64"
      by (simp only: q_def r_def)
    have lt: "A mod 4 * 16 + B div 16 < 64"
      using b mod_less_divisor [of 4 A] by linarith
    have "(A mod 4 * 16 + B div 16 + (A div 4) * 64) mod 64 = (A mod 4 * 16 + B div 16) mod 64"
      by (rule mod_mult_self1)
    with lt show ?thesis by (simp only: e) simp
  qed
  ultimately show "(A * 256 + B) * 4 div 64 ^ 1 mod 64 = A mod 4 * 16 + B div 16" by simp
  have "(A * 256 + B) * 4 mod (16 * 4) = (A * 256 + B) mod 16 * 4"
    by (rule mod_mult_mult2)
  moreover have "(A * 256 + B) mod 16 = B mod 16"
  proof -
    have "A * 256 + B = B + A * 16 * 16" by simp
    then show ?thesis by (simp only: mod_mult_self1)
  qed
  ultimately show "(A * 256 + B) * 4 div 64 ^ 0 mod 64 = B mod 16 * 4" by simp
qed


lemma sextet_url: "alphabet ! (n div 64 ^ k mod 64) = to_url_alphabet (sextet n k)"
  by (simp add: sextet_def alphabet_url)

lemma sextet_no_pad: "sextet n k \<noteq> CHR ''=''"
  by (simp add: sextet_def b64_no_pad)

lemma spec_three:
  "base64url_spec (a # b # c # rest) =
     (let n = unat a * 65536 + unat b * 256 + unat c
      in map to_url_alphabet [sextet n 3, sextet n 2, sextet n 1, sextet n 0]) @ base64url_spec rest"
  by (simp add: base64url_spec_def Let_def sextet_no_pad)

lemma spec_two:
  "base64url_spec [a, b] =
     (let n = (unat a * 256 + unat b) * 4 in map to_url_alphabet [sextet n 2, sextet n 1, sextet n 0])"
  by (simp add: base64url_spec_def Let_def sextet_no_pad)

lemma spec_one:
  "base64url_spec [a] = (let n = unat a * 16 in map to_url_alphabet [sextet n 1, sextet n 0])"
  by (simp add: base64url_spec_def Let_def sextet_no_pad)

lemma code_three:
  fixes a b c :: u8
  defines "chunk \<equiv> push_bit 16 (ucast a :: u32) OR push_bit 8 (ucast b) OR ucast c"
  shows "[alphabet ! unat (drop_bit 18 chunk AND 0x3f), alphabet ! unat (drop_bit 12 chunk AND 0x3f),
          alphabet ! unat (drop_bit 6 chunk AND 0x3f), alphabet ! unat (chunk AND 0x3f)]
       = (let n = unat a * 65536 + unat b * 256 + unat c
          in map to_url_alphabet [sextet n 3, sextet n 2, sextet n 1, sextet n 0])"
proof -
  let ?n = "unat a * 65536 + unat b * 256 + unat c"
  have u: "unat chunk = ?n"
    unfolding chunk_def by (rule unat_chunk)
  have "unat (drop_bit 18 chunk AND 0x3f) = ?n div 64 ^ 3 mod 64"
    "unat (drop_bit 12 chunk AND 0x3f) = ?n div 64 ^ 2 mod 64"
    "unat (drop_bit 6 chunk AND 0x3f) = ?n div 64 ^ 1 mod 64"
    "unat (chunk AND 0x3f) = ?n div 64 ^ 0 mod 64"
    by (simp_all add: unat_and_63 unat_drop_u32 u)
  then show ?thesis
    by (simp only: sextet_url Let_def list.map)
qed

lemma code_two:
  fixes a b :: u8
  shows "[alphabet ! unat (drop_bit 2 (ucast a :: u32) AND 0x3f),
          alphabet ! unat (push_bit 4 ((ucast a :: u32) AND 0x03) OR (drop_bit 4 (ucast b :: u32) AND 0x0f)),
          alphabet ! unat (push_bit 2 ((ucast b :: u32) AND 0x0f))]
       = (let n = (unat a * 256 + unat b) * 4 in map to_url_alphabet [sextet n 2, sextet n 1, sextet n 0])"
proof -
  note s = sextet_two [OF unat_u8_less [of a] unat_u8_less [of b], symmetric]
  show ?thesis
    unfolding idx_tail_first idx_tail_mid idx_tail_last
    by (subst s(1), subst s(2), subst s(3)) (simp only: sextet_url Let_def list.map)
qed

lemma code_one:
  fixes a :: u8
  shows "[alphabet ! unat (drop_bit 2 (ucast a :: u32) AND 0x3f),
          alphabet ! unat (push_bit 4 ((ucast a :: u32) AND 0x03))]
       = (let n = unat a * 16 in map to_url_alphabet [sextet n 1, sextet n 0])"
proof -
  note s = sextet_one [OF unat_u8_less [of a], symmetric]
  show ?thesis
    unfolding idx_tail_first idx_tail_one
    by (subst s(1), subst s(2)) (simp only: sextet_url Let_def list.map)
qed


lemma base64url_run:
  "i \<le> length data \<Longrightarrow>
   (case base64url_loop data i out of (j, out') \<Rightarrow> base64url_tail data j out')
     = out @ base64url_spec (drop i data)"
proof (induction data i out rule: base64url_loop.induct)
  case (1 data i out)
  show ?case
  proof (cases "i + 2 < length data")
    case True
    let ?chunk = "push_bit 16 (ucast (data ! i) :: u32) OR push_bit 8 (ucast (data ! (i + 1)))
                    OR ucast (data ! (i + 2))"
    let ?quad = "[alphabet ! unat (drop_bit 18 ?chunk AND 0x3f),
                  alphabet ! unat (drop_bit 12 ?chunk AND 0x3f),
                  alphabet ! unat (drop_bit 6 ?chunk AND 0x3f),
                  alphabet ! unat (?chunk AND 0x3f)]"
    have d: "drop i data = data ! i # data ! (i + 1) # data ! (i + 2) # drop (i + 3) data"
      using True by (simp add: Cons_nth_drop_Suc numeral_3_eq_3)
    have l: "base64url_loop data i out = base64url_loop data (i + 3) (out @ ?quad)"
      using True by (subst base64url_loop.simps) (simp add: Let_def)
    have "(case base64url_loop data (i + 3) (out @ ?quad) of (j, out') \<Rightarrow> base64url_tail data j out')
        = (out @ ?quad) @ base64url_spec (drop (i + 3) data)"
      using "1.IH" [OF True refl] True by simp
    then show ?thesis
      by (simp only: l d spec_three code_three append_assoc)
  next
    case False
    then have l: "base64url_loop data i out = (i, out)"
      by (subst base64url_loop.simps) simp
    consider "i = length data" | "i + 1 = length data" | "i + 2 = length data"
      using False "1.prems" by linarith
    then show ?thesis
    proof cases
      case 1
      then show ?thesis
        unfolding l by (simp add: base64url_tail_def base64url_spec_def)
    next
      case 2
      then have d: "drop i data = [data ! i]"
        using Cons_nth_drop_Suc [of i data] by simp
      have "i < length data" "\<not> i + 1 < length data"
        using 2 by simp_all
      then show ?thesis
        unfolding l d using code_one [of "data ! i"]
        by (simp add: base64url_tail_def spec_one Let_def)
    next
      case 3
      then have d: "drop i data = [data ! i, data ! (i + 1)]"
        using Cons_nth_drop_Suc [of i data] Cons_nth_drop_Suc [of "Suc i" data] by simp
      have "i < length data" "i + 1 < length data"
        using 3 by simp_all
      then show ?thesis
        unfolding l d using code_two [of "data ! i" "data ! (i + 1)"]
        by (simp add: base64url_tail_def spec_two Let_def)
    qed
  qed
qed

lemma base64url_eq_spec: "base64url data = base64url_spec data"
  using base64url_run [of 0 data "[]"] by (simp add: base64url_def)


lemma base64_std_chars: "set (base64_std data) \<subseteq> set b64_alphabet \<union> {CHR ''=''}"
proof (induction data rule: base64_std.induct)
  case 1
  show ?case by simp
next
  case (2 a)
  have "sextet n k \<in> set b64_alphabet" for n k
    unfolding sextet_def by (rule nth_mem) (simp add: b64_alphabet_def)
  then show ?case by (simp add: Let_def)
next
  case (3 a b)
  have "sextet n k \<in> set b64_alphabet" for n k
    unfolding sextet_def by (rule nth_mem) (simp add: b64_alphabet_def)
  then show ?case by (simp add: Let_def)
next
  case (4 a b c rest)
  have "sextet n k \<in> set b64_alphabet" for n k
    unfolding sextet_def by (rule nth_mem) (simp add: b64_alphabet_def)
  with 4 show ?case by (simp add: Let_def)
qed

lemma to_url_alphabet_image: "c \<in> set b64_alphabet \<Longrightarrow> to_url_alphabet c \<in> set alphabet"
proof -
  have "map to_url_alphabet b64_alphabet = alphabet"
    by (simp add: alphabet_def b64_alphabet_def to_url_alphabet_def)
  then have "set alphabet = to_url_alphabet ` set b64_alphabet"
    by (metis set_map)
  then show "c \<in> set b64_alphabet \<Longrightarrow> to_url_alphabet c \<in> set alphabet"
    by simp
qed

lemma base64url_spec_chars: "set (base64url_spec data) \<subseteq> set alphabet"
  using base64_std_chars [of data] to_url_alphabet_image
  by (auto simp: base64url_spec_def)

lemma base64url_spec_no_pad: "CHR ''='' \<notin> set (base64url_spec data)"
  by (auto simp: base64url_spec_def to_url_alphabet_def split: if_splits)

lemma base64url_spec_length: "length (base64url_spec data) = (4 * length data + 2) div 3"
  by (induction data rule: base64_std.induct) (simp_all add: spec_one spec_two spec_three Let_def, simp add: base64url_spec_def)

text \<open>
  Claim C6. For every byte sequence, \<open>base64url\<close> is standard base64 with \<open>-\<close> and \<open>_\<close> in place
  of \<open>+\<close> and \<open>/\<close> and with the padding left out, also when one or two bytes remain after the
  last full group; its output never contains \<open>=\<close>, consists of characters of the URL-safe
  alphabet, and has \<open>(4 * len + 2) div 3\<close> characters. So the PKCE challenge never contains
  \<open>=\<close>. The test vectors are those of RFC 4648.
\<close>

theorem base64url_standard_no_padding:
  "base64url data = map to_url_alphabet (filter (\<lambda>c. c \<noteq> CHR ''='') (base64_std data))
   \<and> CHR ''='' \<notin> set (base64url data)
   \<and> set (base64url data) \<subseteq> set alphabet
   \<and> length (base64url data) = (4 * length data + 2) div 3
   \<and> CHR ''='' \<notin> set (challenge (make_pkce_challenge w))
   \<and> base64_std [0x66] = ''Zg=='' \<and> base64url [0x66] = ''Zg''
   \<and> base64_std [0x66, 0x6f] = ''Zm8='' \<and> base64url [0x66, 0x6f] = ''Zm8''
   \<and> base64_std [0x66, 0x6f, 0x6f] = ''Zm9v'' \<and> base64url [0x66, 0x6f, 0x6f] = ''Zm9v''
   \<and> base64_std [0xfb, 0xff, 0xfe] = ''+//+'' \<and> base64url [0xfb, 0xff, 0xfe] = ''-__-''"
proof -
  have e: "base64url d = base64url_spec d" for d
    by (rule base64url_eq_spec)
  have c: "challenge (make_pkce_challenge w) = base64url (sha256 (verifier (make_pkce_challenge w)))"
    by (simp add: make_pkce_challenge_def Let_def)
  have v: "base64_std [0x66] = ''Zg=='' \<and> base64_std [0x66, 0x6f] = ''Zm8=''
      \<and> base64_std [0x66, 0x6f, 0x6f] = ''Zm9v'' \<and> base64_std [0xfb, 0xff, 0xfe] = ''+//+''"
    by (simp add: sextet_def b64_alphabet_def Let_def)
  then have u: "base64url_spec [0x66] = ''Zg'' \<and> base64url_spec [0x66, 0x6f] = ''Zm8''
      \<and> base64url_spec [0x66, 0x6f, 0x6f] = ''Zm9v'' \<and> base64url_spec [0xfb, 0xff, 0xfe] = ''-__-''"
    by (simp add: base64url_spec_def to_url_alphabet_def)
  show ?thesis
    unfolding c e using v u base64url_spec_no_pad base64url_spec_chars base64url_spec_length
    by (simp add: base64url_spec_def [symmetric])
qed

section \<open>\<open>sha256\<close> is SHA-256\<close>

lemma rotr_word_rotr:
  assumes "0 < n" and "n < 32"
  shows "rotr x n = word_rotr n x"
  unfolding rotr_def
proof (rule bit_word_eqI)
  fix k
  assume k: "k < LENGTH(32)"
  show "bit (drop_bit n x OR push_bit (32 - n) x) k = bit (word_rotr n x) k"
  proof (cases "n + k < 32")
    case True
    then have "(k + n) mod 32 = n + k" and "\<not> 32 - n \<le> k" by simp_all
    with True k assms show ?thesis
      by (simp add: bit_or_iff bit_drop_bit_eq bit_push_bit_iff bit_word_rotr_iff add.commute)
  next
    case False
    then have m: "(k + n) mod 32 = k - (32 - n)"
      using k assms by (simp add: mod_if)
    have le: "32 - n \<le> k"
      using False by simp
    have "\<not> bit x (n + k)"
      using False bit_imp_le_length [of x "n + k"] by auto
    with False le k assms m show ?thesis
      by (simp add: bit_or_iff bit_drop_bit_eq bit_push_bit_iff bit_word_rotr_iff add.commute)
  qed
qed

lemma replicate_numeral_eval: "replicate (numeral v) x = x # replicate (pred_numeral v) x"
  by (simp add: numeral_eq_Suc)

lemma take_bit_u32: "take_bit 32 (x :: u32) = x"
proof -
  have "take_bit LENGTH(32) x = x"
    by (rule take_bit_length_eq)
  then show ?thesis by simp
qed

lemma fips_schedule_Suc:
  "fips_schedule (Suc n) win =
     take_bit 32 (sigma1 (win ! 14) + win ! 9 + sigma0 (win ! 1) + win ! 0)
     # fips_schedule n (tl win @ [take_bit 32 (sigma1 (win ! 14) + win ! 9 + sigma0 (win ! 1) + win ! 0)])"
  by (simp add: Let_def take_bit_u32)

lemma fips_schedule_numeral:
  "fips_schedule (numeral v) win =
     take_bit 32 (sigma1 (win ! 14) + win ! 9 + sigma0 (win ! 1) + win ! 0)
     # fips_schedule (pred_numeral v)
         (tl win @ [take_bit 32 (sigma1 (win ! 14) + win ! 9 + sigma0 (win ! 1) + win ! 0)])"
  by (subst numeral_eq_Suc [of v]) (rule fips_schedule_Suc)

lemma fips_round_eval:
  "fips_round (k, w) (a, b, c, d, e, f, g, h) =
     (take_bit 32 ((h + Sigma1 e + Ch e f g + k + w) + (Sigma0 a + Maj a b c)), a, b, c,
      take_bit 32 (d + (h + Sigma1 e + Ch e f g + k + w)), e, f, g)"
  by (simp add: Let_def take_bit_u32)

lemma fips_add_eval:
  "fips_add (a, b, c, d, e, f, g, h) (a', b', c', d', e', f', g', h') =
     (take_bit 32 (a + a'), take_bit 32 (b + b'), take_bit 32 (c + c'), take_bit 32 (d + d'),
      take_bit 32 (e + e'), take_bit 32 (f + f'), take_bit 32 (g + g'), take_bit 32 (h + h'))"
  by (simp add: take_bit_u32)

lemma word_rotr_eval:
  "word_rotr 2 x = drop_bit 2 x OR push_bit 30 (x :: u32)"
  "word_rotr 13 x = drop_bit 13 x OR push_bit 19 (x :: u32)"
  "word_rotr 22 x = drop_bit 22 x OR push_bit 10 (x :: u32)"
  "word_rotr 6 x = drop_bit 6 x OR push_bit 26 (x :: u32)"
  "word_rotr 11 x = drop_bit 11 x OR push_bit 21 (x :: u32)"
  "word_rotr 25 x = drop_bit 25 x OR push_bit 7 (x :: u32)"
  "word_rotr 7 x = drop_bit 7 x OR push_bit 25 (x :: u32)"
  "word_rotr 18 x = drop_bit 18 x OR push_bit 14 (x :: u32)"
  "word_rotr 17 x = drop_bit 17 x OR push_bit 15 (x :: u32)"
  "word_rotr 19 x = drop_bit 19 x OR push_bit 13 (x :: u32)"
  by (simp_all add: rotr_word_rotr [symmetric] rotr_def)

lemmas fips_eval = fips_schedule_numeral fips_schedule_Suc fips_round_eval fips_add_eval
  word_rotr_eval Sigma0_def Sigma1_def sigma0_def sigma1_def Ch_def Maj_def fips_word_def
  kTable_def fold_simps

lemma fips_compress_eval:
  "fips_compress blk H =
     fips_add H (fold fips_round (zip kTable (fips_words blk @ fips_schedule 48 (fips_words blk))) H)"
  by (simp add: fips_compress_def Let_def)

lemma pad_count_step:
  assumes "n mod 64 \<noteq> 56"
  shows "(120 - n mod 64) mod 64 = Suc ((120 - Suc n mod 64) mod 64)"
proof -
  define r where "r = n mod 64"
  have r: "r < 64" "r \<noteq> 56"
    using assms by (simp_all add: r_def)
  have s: "Suc n mod 64 = (if r = 63 then 0 else Suc r)"
    unfolding r_def by (simp add: mod_Suc)
  have "(120 - r) mod 64 = Suc ((120 - (if r = 63 then 0 else Suc r)) mod 64)"
  proof (cases "r < 56")
    case True
    then have "(120 - r) mod 64 = 56 - r" "(120 - Suc r) mod 64 = 55 - r" "r \<noteq> 63"
      by (simp_all add: mod_if)
    with True show ?thesis by simp
  next
    case False
    with r have big: "56 < r" by simp
    with r have "(120 - r) mod 64 = 120 - r" by simp
    moreover have "r \<noteq> 63 \<Longrightarrow> (120 - Suc r) mod 64 = 119 - r"
      using r big by simp
    ultimately show ?thesis using r big by auto
  qed
  then show ?thesis
    by (simp only: s r_def)
qed

lemma pad_zeros_closed: "pad_zeros msg = msg @ replicate ((120 - length msg mod 64) mod 64) 0"
proof (induction msg rule: pad_zeros.induct)
  case (1 msg)
  show ?case
  proof (cases "length msg mod 64 \<noteq> 56")
    case True
    have "pad_zeros msg = pad_zeros (msg @ [0])"
      using True by (subst pad_zeros.simps) simp
    also have "\<dots> = (msg @ [0]) @ replicate ((120 - Suc (length msg) mod 64) mod 64) 0"
      using "1.IH" [OF True] by simp
    also have "\<dots> = msg @ replicate (Suc ((120 - Suc (length msg) mod 64) mod 64)) 0"
      by simp
    finally show ?thesis
      by (simp only: pad_count_step [OF True])
  next
    case False
    then show ?thesis
      by (subst pad_zeros.simps) simp
  qed
qed

lemma pad_count_after_80: "(120 - Suc n mod 64) mod 64 = (119 - n mod 64) mod 64"
proof -
  define r where "r = n mod 64"
  have r: "r < 64" by (simp add: r_def)
  have s: "Suc n mod 64 = (if r = 63 then 0 else Suc r)"
    unfolding r_def by (simp add: mod_Suc)
  have "(120 - (if r = 63 then 0 else Suc r)) mod 64 = (119 - r) mod 64"
    using r by auto
  then show ?thesis by (simp only: s r_def)
qed

lemma push_bit_len_8:
  "push_bit_len bit_len 8 msg
     = msg @ map (\<lambda>i. ucast (drop_bit (i * 8) bit_len AND 0xff)) [7, 6, 5, 4, 3, 2, 1, 0]"
proof -
  have e: "(8 :: nat) = Suc (Suc (Suc (Suc (Suc (Suc (Suc (Suc 0)))))))"
    by simp
  show ?thesis
    unfolding e by (simp add: numeral_eq_Suc)
qed

lemma length_byte:
  assumes "i < 8"
  shows "(ucast (drop_bit (i * 8) ((of_nat n :: u64) * 8) AND 0xff) :: u8) = of_nat (8 * n div 256 ^ i)"
proof -
  define N where "N = 8 * n"
  have m: "(0xff :: u64) = mask 8" by (simp add: mask_eq_exp_minus_1)
  have "(2 :: nat) ^ (8 * i) = (2 ^ 8) ^ i"
    by (rule power_mult)
  then have p: "(256 :: nat) ^ i = 2 ^ (i * 8)"
    by (simp add: mult.commute)
  have w: "(of_nat n :: u64) * 8 = of_nat N" by (simp add: N_def)
  have "(ucast (drop_bit (i * 8) (of_nat N :: u64) AND mask 8) :: u8) = of_nat (drop_bit (i * 8) N)"
  proof (rule bit_word_eqI)
    fix k
    assume k: "k < LENGTH(8)"
    then have lt: "i * 8 + k < 64" using assms by simp
    show "bit (ucast (drop_bit (i * 8) (of_nat N :: u64) AND mask 8) :: u8) k
        = bit (of_nat (drop_bit (i * 8) N) :: u8) k"
      using k lt by (simp add: bit_simps add.commute)
  qed
  then show ?thesis
    unfolding m w p by (simp add: drop_bit_eq_div N_def)
qed

lemma sha256_pad_fips: "sha256_pad input = fips_pad (map of_char input)"
proof -
  let ?m = "map of_char input :: u8 list"
  have c: "(120 - length (?m @ [0x80]) mod 64) mod 64 = (119 - length ?m mod 64) mod 64"
    using pad_count_after_80 [of "length ?m"] by simp
  have b: "map (\<lambda>i. ucast (drop_bit (i * 8) ((of_nat (length ?m) :: u64) * 8) AND 0xff) :: u8)
             [7, 6, 5, 4, 3, 2, 1, 0]
         = map (\<lambda>i. of_nat (8 * length ?m div 256 ^ i)) [7, 6, 5, 4, 3, 2, 1, 0]"
    by (rule map_cong [OF refl]) (auto intro: length_byte)
  show ?thesis
    unfolding sha256_pad_def Let_def push_bit_len_8 pad_zeros_closed c b fips_pad_def
    by simp
qed

lemma fips_pad_length: "length (fips_pad m) mod 64 = 0"
proof -
  define r where "r = length m mod 64"
  have r: "r < 64" by (simp add: r_def)
  have "length (fips_pad m) = length m + (1 + (119 - r) mod 64 + 8)"
    by (simp add: fips_pad_def r_def)
  moreover have "(r + (1 + (119 - r) mod 64 + 8)) mod 64 = 0"
  proof (cases "r \<le> 55")
    case True
    then have "(119 - r) mod 64 = 55 - r" by (simp add: mod_if)
    with True show ?thesis by simp
  next
    case False
    with r have "(119 - r) mod 64 = 119 - r" by simp
    with False r show ?thesis by simp
  qed
  ultimately have "length (fips_pad m) mod 64 = (length m mod 64 + (1 + (119 - r) mod 64 + 8)) mod 64"
    by (simp add: mod_add_left_eq)
  then show ?thesis
    using \<open>(r + (1 + (119 - r) mod 64 + 8)) mod 64 = 0\<close> by (simp add: r_def)
qed

lemma fold_update_upt:
  "n \<le> m \<Longrightarrow> fold (\<lambda>i w. w[i := f i]) [0..<n] (replicate m z) = map f [0..<n] @ replicate (m - n) z"
proof (induction n)
  case 0
  show ?case by simp
next
  case (Suc n)
  then have n: "n < m" by simp
  have "replicate (m - n) z = z # replicate (m - Suc n) z"
    using n by (cases "m - n") simp_all
  then have "(map f [0..<n] @ replicate (m - n) z)[n := f n]
      = map f [0..<n] @ f n # replicate (m - Suc n) z"
    by (simp add: list_update_append)
  with Suc show ?case by simp
qed

lemma load_word_fips:
  "load_word (a # b # c # d # rest) 0 = fips_word a b c d"
proof -
  have cd: "push_bit 8 (unat c) OR unat d = push_bit 8 (unat c) + unat d"
    by (rule or_push_bit_nat) (use unat_u8_less [of d] in simp)
  have "unat c * 256 + unat d < 2 ^ 16"
    using unat_u8_less [of c] unat_u8_less [of d] by simp
  then have bcd: "push_bit 16 (unat b) OR (unat c * 256 + unat d)
      = push_bit 16 (unat b) + (unat c * 256 + unat d)"
    by (rule or_push_bit_nat)
  have "unat b * 65536 + (unat c * 256 + unat d) < 2 ^ 24"
    using unat_u8_less [of b] unat_u8_less [of c] unat_u8_less [of d] by simp
  then have abcd: "push_bit 24 (unat a) OR (unat b * 65536 + (unat c * 256 + unat d))
      = push_bit 24 (unat a) + (unat b * 65536 + (unat c * 256 + unat d))"
    by (rule or_push_bit_nat)
  let ?w = "push_bit 24 (ucast a :: u32) OR push_bit 16 (ucast b) OR push_bit 8 (ucast c) OR ucast d"
  have "unat ?w = unat (push_bit 24 (ucast a :: u32))
      OR (unat (push_bit 16 (ucast b :: u32)) OR (unat (push_bit 8 (ucast c :: u32)) OR unat (ucast d :: u32)))"
    by (simp only: unsigned_or_eq or.assoc)
  also have "\<dots> = unat a * 2 ^ 24 OR (unat b * 2 ^ 16 OR (unat c * 2 ^ 8 OR unat d))"
    by (simp add: unat_push_u8 unat_ucast_u8)
  also have "\<dots> = push_bit 24 (unat a) OR (push_bit 16 (unat b) OR (push_bit 8 (unat c) OR unat d))"
    by (simp only: push_bit_eq_mult)
  also have "\<dots> = push_bit 24 (unat a) OR (push_bit 16 (unat b) OR (unat c * 256 + unat d))"
    by (simp only: cd) (simp add: push_bit_eq_mult)
  also have "\<dots> = push_bit 24 (unat a) OR (unat b * 65536 + (unat c * 256 + unat d))"
    by (simp only: bcd) (simp add: push_bit_eq_mult)
  also have "\<dots> = push_bit 24 (unat a) + (unat b * 65536 + (unat c * 256 + unat d))"
    by (rule abcd)
  finally have u: "unat ?w = unat a * 16777216 + unat b * 65536 + unat c * 256 + unat d"
    by (simp add: push_bit_eq_mult)
  have "?w = of_nat (unat ?w)" by simp
  then show ?thesis
    unfolding u by (simp add: load_word_def fips_word_def)
qed

lemma load_word_shift: "load_word (a # b # c # d # rest) (Suc i * 4) = load_word rest (i * 4)"
  by (simp add: load_word_def add.commute)

lemma fips_words_index:
  "length bs = 4 * n \<Longrightarrow> fips_words bs = map (\<lambda>i. load_word bs (i * 4)) [0..<n]"
proof (induction n arbitrary: bs)
  case 0
  then show ?case by simp
next
  case (Suc n)
  then obtain a b c d rest where bs: "bs = a # b # c # d # rest" and r: "length rest = 4 * n"
    by (cases bs; cases "tl bs"; cases "tl (tl bs)"; cases "tl (tl (tl bs))") auto
  have "map (\<lambda>i. load_word bs (i * 4)) [0..<Suc n]
      = load_word bs 0 # map (\<lambda>i. load_word bs (Suc i * 4)) [0..<n]"
    by (simp only: upt_conv_Cons [of 0 "Suc n"] map_Suc_upt [symmetric] list.map map_map o_def)
       simp
  also have "\<dots> = fips_word a b c d # map (\<lambda>i. load_word rest (i * 4)) [0..<n]"
    unfolding bs by (simp only: load_word_fips load_word_shift)
  also have "\<dots> = fips_words bs"
    using Suc.IH [OF r] by (simp add: bs)
  finally show ?case by simp
qed

lemma load_word_slice:
  assumes "offset + 64 \<le> length msg" and "i < 16"
  shows "load_word msg (offset + i * 4) = load_word (take 64 (drop offset msg)) (i * 4)"
  using assms by (simp add: load_word_def add.assoc)

lemma load_block_fips:
  assumes "offset + 64 \<le> length msg"
  shows "load_block msg offset = fips_words (take 64 (drop offset msg)) @ replicate 48 0"
proof -
  let ?blk = "take 64 (drop offset msg)"
  have l: "length ?blk = 4 * 16" using assms by simp
  have "load_block msg offset = map (\<lambda>i. load_word msg (offset + i * 4)) [0..<16] @ replicate 48 0"
    unfolding load_block_def by (subst fold_update_upt) simp_all
  also have "map (\<lambda>i. load_word msg (offset + i * 4)) [0..<16]
      = map (\<lambda>i. load_word ?blk (i * 4)) [0..<16]"
    by (rule map_cong [OF refl]) (simp add: load_word_slice [OF assms])
  also have "\<dots> = fips_words ?blk"
    by (rule fips_words_index [OF l, symmetric])
  finally show ?thesis .
qed

lemma fips_words_length: "length bs = 4 * n \<Longrightarrow> length (fips_words bs) = n"
  by (simp add: fips_words_index)

lemma extend_step_sigma:
  "extend_step i w = w[i := w ! (i - 16) + sigma0 (w ! (i - 15)) + w ! (i - 7) + sigma1 (w ! (i - 2))]"
  by (simp add: extend_step_def Let_def sigma0_def sigma1_def rotr_word_rotr)

lemma extend_step_append:
  assumes "length p = i" and "16 \<le> i"
  shows "extend_step i (p @ z # rest)
     = (p @ [sigma1 (drop (i - 16) p ! 14) + drop (i - 16) p ! 9 + sigma0 (drop (i - 16) p ! 1)
              + drop (i - 16) p ! 0]) @ rest"
proof -
  have n: "(p @ z # rest) ! (i - 16) = p ! (i - 16)" "(p @ z # rest) ! (i - 15) = p ! (i - 15)"
    "(p @ z # rest) ! (i - 7) = p ! (i - 7)" "(p @ z # rest) ! (i - 2) = p ! (i - 2)"
    using assms by (simp_all add: nth_append)
  have e: "Suc (i - 16) = i - 15" "i - 16 + 14 = i - 2" "i - 16 + 9 = i - 7"
    using assms by simp_all
  have d: "drop (i - 16) p ! 14 = p ! (i - 2)" "drop (i - 16) p ! 9 = p ! (i - 7)"
    "drop (i - 16) p ! 1 = p ! (i - 15)" "drop (i - 16) p ! 0 = p ! (i - 16)"
    using assms by (simp_all add: e)
  have u: "(p @ z # rest)[i := x] = (p @ [x]) @ rest" for x
    using list_update_length [of p z rest x] by (simp add: assms(1))
  show ?thesis
    unfolding extend_step_sigma n d u by (simp add: ac_simps)
qed

lemma extend_fold:
  "16 \<le> length p \<Longrightarrow> length p + n = 64 \<Longrightarrow>
   fold extend_step [length p..<64] (p @ replicate n 0)
     = p @ fips_schedule n (drop (length p - 16) p)"
proof (induction n arbitrary: p)
  case 0
  then show ?case by simp
next
  case (Suc n)
  let ?i = "length p"
  let ?win = "drop (?i - 16) p"
  let ?x = "sigma1 (?win ! 14) + ?win ! 9 + sigma0 (?win ! 1) + ?win ! 0"
  have lt: "?i < 64" using Suc.prems by simp
  have up: "[?i..<64] = ?i # [Suc ?i..<64]"
    using lt by (rule upt_conv_Cons)
  have st: "extend_step ?i (p @ replicate (Suc n) 0) = (p @ [?x]) @ replicate n 0"
    using extend_step_append [OF refl Suc.prems(1), of 0 "replicate n 0"] by simp
  have ih: "fold extend_step [length (p @ [?x])..<64] ((p @ [?x]) @ replicate n 0)
      = (p @ [?x]) @ fips_schedule n (drop (length (p @ [?x]) - 16) (p @ [?x]))"
    using Suc.prems by (intro Suc.IH) simp_all
  have w: "drop (length (p @ [?x]) - 16) (p @ [?x]) = tl ?win @ [?x]"
  proof -
    define k where "k = length p - 16"
    have lk: "length (p @ [?x]) - 16 = Suc k"
      using Suc.prems(1) by (simp add: k_def)
    have le: "Suc k - length p = 0"
      using Suc.prems(1) by (simp add: k_def)
    have "drop (Suc k) (p @ [?x]) = drop (Suc k) p @ drop (Suc k - length p) [?x]"
      by (rule drop_append)
    also have "\<dots> = drop (Suc k) p @ [?x]"
      by (simp only: le drop_0)
    also have "drop (Suc k) p = tl (drop k p)"
      by (simp add: drop_Suc tl_drop)
    finally show ?thesis
      by (simp only: lk k_def)
  qed
  have "fold extend_step [?i..<64] (p @ replicate (Suc n) 0)
      = fold extend_step [Suc ?i..<64] ((p @ [?x]) @ replicate n 0)"
    by (subst up) (simp only: fold_simps st)
  also have "\<dots> = (p @ [?x]) @ fips_schedule n (tl ?win @ [?x])"
    using ih [unfolded w] by (simp only: length_append_singleton)
  also have "\<dots> = p @ fips_schedule (Suc n) ?win"
    by (simp add: Let_def)
  finally show ?case .
qed

lemma extend_block_fips:
  "length ws = 16 \<Longrightarrow> extend_block (ws @ replicate 48 0) = ws @ fips_schedule 48 ws"
  using extend_fold [of ws 48] by (simp add: extend_block_def)

lemma vars_cases:
  fixes v :: vars
  obtains a b c d e f g h where "v = (a, b, c, d, e, f, g, h)"
proof (cases v)
  case (fields a b c d e f gh)
  then show ?thesis using that by (cases gh) simp
qed

lemma round_step_fips: "round_step w i v = fips_round (kTable ! i, w ! i) v"
  by (cases v rule: vars_cases)
     (simp add: Let_def Sigma0_def Sigma1_def Ch_def Maj_def rotr_word_rotr)

lemma zip_index: "length xs = n \<Longrightarrow> length ys = n \<Longrightarrow> zip xs ys = map (\<lambda>i. (xs ! i, ys ! i)) [0..<n]"
  by (auto intro: nth_equalityI)

lemma rounds_fips:
  assumes "length w = 64"
  shows "rounds w v = fold fips_round (zip kTable w) v"
proof -
  have k: "length kTable = 64" by (simp add: kTable_def)
  have "fold fips_round (zip kTable w) v
      = fold fips_round (map (\<lambda>i. (kTable ! i, w ! i)) [0..<64]) v"
    by (simp only: zip_index [OF k assms])
  also have "\<dots> = fold (\<lambda>i. fips_round (kTable ! i, w ! i)) [0..<64] v"
    by (simp add: fold_map o_def)
  also have "\<dots> = rounds w v"
    unfolding rounds_def by (simp only: round_step_fips [abs_def])
  finally show ?thesis by simp
qed

lemma process_block_fips:
  assumes "offset + 64 \<le> length msg"
  shows "process_block msg offset (words_of H)
     = words_of (fips_compress (take 64 (drop offset msg)) H)"
proof -
  let ?blk = "take 64 (drop offset msg)"
  have l: "length ?blk = 4 * 16" using assms by simp
  have lw: "length (fips_words ?blk) = 16"
    by (rule fips_words_length [OF l])
  have w: "extend_block (load_block msg offset) = fips_words ?blk @ fips_schedule 48 (fips_words ?blk)"
    by (simp only: load_block_fips [OF assms] extend_block_fips [OF lw])
  have lf: "length (fips_schedule n win) = n" for n win
    by (induction n arbitrary: win) (simp_all add: Let_def)
  have l64: "length (fips_words ?blk @ fips_schedule 48 (fips_words ?blk)) = 64"
    by (simp add: lw lf)
  obtain a b c d e f g h where H: "H = (a, b, c, d, e, f, g, h)"
    by (rule vars_cases)
  obtain a' b' c' d' e' f' g' h' where
    R: "fold fips_round (zip kTable (fips_words ?blk @ fips_schedule 48 (fips_words ?blk))) H
        = (a', b', c', d', e', f', g', h')"
    by (rule vars_cases)
  have t: "(words_of H ! 0, words_of H ! 1, words_of H ! 2, words_of H ! 3, words_of H ! 4,
            words_of H ! 5, words_of H ! 6, words_of H ! 7) = H"
    by (simp add: H words_of_def)
  show ?thesis
    unfolding process_block_def Let_def w rounds_fips [OF l64] t fips_compress_def R
    by (simp add: H words_of_def)
qed

lemma fips_blocks_Cons:
  "m \<noteq> [] \<Longrightarrow> fips_blocks m = take 64 m # fips_blocks (drop 64 m)"
  by (subst fips_blocks.simps) simp

lemma process_blocks_fips:
  "length msg = offset + 64 * k \<Longrightarrow>
   process_blocks msg offset (words_of H)
     = words_of (fold fips_compress (fips_blocks (drop offset msg)) H)"
proof (induction k arbitrary: offset H)
  case 0
  then show ?case
    by (subst process_blocks.simps) (simp add: fips_blocks.simps [of "[]"])
next
  case (Suc k)
  have lt: "offset < length msg" and le: "offset + 64 \<le> length msg"
    and l: "length msg = (offset + 64) + 64 * k"
    using Suc.prems by simp_all
  have ne: "drop offset msg \<noteq> []" using lt by simp
  have "process_blocks msg offset (words_of H)
      = process_blocks msg (offset + 64) (process_block msg offset (words_of H))"
    using lt by (subst process_blocks.simps) simp
  also have "\<dots> = process_blocks msg (offset + 64)
      (words_of (fips_compress (take 64 (drop offset msg)) H))"
    by (simp only: process_block_fips [OF le])
  also have "\<dots> = words_of (fold fips_compress (fips_blocks (drop (offset + 64) msg))
      (fips_compress (take 64 (drop offset msg)) H))"
    by (rule Suc.IH [OF l])
  also have "\<dots> = words_of (fold fips_compress (fips_blocks (drop offset msg)) H)"
    by (simp add: fips_blocks_Cons [OF ne] add.commute)
  finally show ?case .
qed

lemma ucast_and_ff: "(ucast (x AND 0xff :: u32) :: u8) = ucast x"
proof -
  have m: "(0xff :: u32) = mask 8" by (simp add: mask_eq_exp_minus_1)
  show ?thesis
    unfolding m by (rule bit_word_eqI) (simp add: bit_simps)
qed

lemma store_word_fips: "store_word x = fips_bytes x"
  by (simp only: store_word_def fips_bytes_def ucast_and_ff)

lemma list_update_Cons_numeral: "(x # xs)[numeral v := y] = x # xs[pred_numeral v := y]"
  by (simp add: numeral_eq_Suc)

lemma upt_0_8: "[0..<8] = [0, 1, 2, 3, 4, 5, 6, 7]"
  by (simp add: upt_rec)

lemma replicate_32:
  "replicate 32 x = [x, x, x, x, x, x, x, x, x, x, x, x, x, x, x, x,
                     x, x, x, x, x, x, x, x, x, x, x, x, x, x, x, x]"
  by (simp add: replicate_numeral_eval)

lemma sha256_out_fips:
  "sha256_out (words_of (a, b, c, d, e, f, g, h)) = concat (map fips_bytes [a, b, c, d, e, f, g, h])"
  unfolding sha256_out_def store_word_fips upt_0_8 replicate_32 words_of_def
  by (simp add: fips_bytes_def list_update_Cons_numeral)

lemma h_init_fips: "h_init = words_of fips_H0"
  by (simp add: h_init_def fips_H0_def words_of_def)

lemma sha256_fips: "sha256 input = sha256_fips (map of_char input)"
proof -
  let ?m = "fips_pad (map of_char input)"
  have "length ?m mod 64 = 0" by (rule fips_pad_length)
  then obtain k where k: "length ?m = 0 + 64 * k"
    by (auto simp: mod_eq_0_iff_dvd dvd_def)
  obtain a b c d e f g h where
    r: "fold fips_compress (fips_blocks ?m) fips_H0 = (a, b, c, d, e, f, g, h)"
    by (rule vars_cases)
  have "process_blocks ?m 0 (words_of fips_H0)
      = words_of (fold fips_compress (fips_blocks (drop 0 ?m)) fips_H0)"
    by (rule process_blocks_fips [OF k])
  then show ?thesis
    by (simp add: sha256_def sha256_pad_fips h_init_fips sha256_fips_def r sha256_out_fips
        del: map_map)
qed

lemma fips_blocks_one: "length m = 64 \<Longrightarrow> fips_blocks m = [m]"
  by (subst fips_blocks.simps) (auto simp: fips_blocks.simps [of "[]"])

lemma fips_pad_empty:
  "fips_pad [] = [0x80,0,0,0,0,0,0,0,0,0,0,0,0,0,0,0,0,0,0,0,0,0,0,0,0,0,0,0,0,0,0,0,
                  0,0,0,0,0,0,0,0,0,0,0,0,0,0,0,0,0,0,0,0,0,0,0,0,0,0,0,0,0,0,0,0]"
  by (simp add: fips_pad_def replicate_numeral_eval)

lemma fips_pad_abc:
  "fips_pad [0x61, 0x62, 0x63]
     = [0x61,0x62,0x63,0x80,0,0,0,0,0,0,0,0,0,0,0,0,0,0,0,0,0,0,0,0,0,0,0,0,0,0,0,0,
        0,0,0,0,0,0,0,0,0,0,0,0,0,0,0,0,0,0,0,0,0,0,0,0,0,0,0,0,0,0,0,0x18]"
  by (simp add: fips_pad_def replicate_numeral_eval)

lemma fips_compress_empty:
  "fips_compress [0x80,0,0,0,0,0,0,0,0,0,0,0,0,0,0,0,0,0,0,0,0,0,0,0,0,0,0,0,0,0,0,0,
                  0,0,0,0,0,0,0,0,0,0,0,0,0,0,0,0,0,0,0,0,0,0,0,0,0,0,0,0,0,0,0,0] fips_H0
   = (0xE3B0C442, 0x98FC1C14, 0x9AFBF4C8, 0x996FB924, 0x27AE41E4, 0x649B934C, 0xA495991B, 0x7852B855)"
  by (simp add: fips_compress_eval fips_eval fips_H0_def
      del: fips_schedule.simps(2) fips_round.simps fips_add.simps fold.simps)

lemma fips_compress_abc:
  "fips_compress [0x61,0x62,0x63,0x80,0,0,0,0,0,0,0,0,0,0,0,0,0,0,0,0,0,0,0,0,0,0,0,0,0,0,0,0,
        0,0,0,0,0,0,0,0,0,0,0,0,0,0,0,0,0,0,0,0,0,0,0,0,0,0,0,0,0,0,0,0x18] fips_H0
   = (0xBA7816BF, 0x8F01CFEA, 0x414140DE, 0x5DAE2223, 0xB00361A3, 0x96177A9C, 0xB410FF61, 0xF20015AD)"
  by (simp add: fips_compress_eval fips_eval fips_H0_def
      del: fips_schedule.simps(2) fips_round.simps fips_add.simps fold.simps)

lemma sha256_fips_empty:
  "sha256_fips [] = [0xE3,0xB0,0xC4,0x42,0x98,0xFC,0x1C,0x14,0x9A,0xFB,0xF4,0xC8,0x99,0x6F,0xB9,0x24,
                     0x27,0xAE,0x41,0xE4,0x64,0x9B,0x93,0x4C,0xA4,0x95,0x99,0x1B,0x78,0x52,0xB8,0x55]"
  unfolding sha256_fips_def fips_pad_empty
  by (subst fips_blocks_one) (simp_all add: fips_compress_empty fips_bytes_def)

lemma sha256_fips_abc:
  "sha256_fips [0x61, 0x62, 0x63]
     = [0xBA,0x78,0x16,0xBF,0x8F,0x01,0xCF,0xEA,0x41,0x41,0x40,0xDE,0x5D,0xAE,0x22,0x23,
        0xB0,0x03,0x61,0xA3,0x96,0x17,0x7A,0x9C,0xB4,0x10,0xFF,0x61,0xF2,0x00,0x15,0xAD]"
  unfolding sha256_fips_def fips_pad_abc
  by (subst fips_blocks_one) (simp_all add: fips_compress_abc fips_bytes_def)

lemma sha256_fips_length: "length (sha256_fips m) = 32"
  by (simp add: sha256_fips_def fips_bytes_def split: prod.split)

lemma pad_count_least:
  fixes n j :: nat
  assumes "j < (119 - n mod 64) mod 64"
  shows "(n + 1 + j) mod 64 \<noteq> 56"
proof -
  define r where "r = n mod 64"
  have r: "r < 64" by (simp add: r_def)
  have g: "(n + k) mod 64 = (n mod 64 + k) mod 64" for k
    by (rule mod_add_left_eq [symmetric])
  have e: "(n + 1 + j) mod 64 = (r + 1 + j) mod 64"
    unfolding r_def using g [of "1 + j"] by (simp only: add.assoc)
  have j: "j < (119 - r) mod 64"
    using assms by (simp add: r_def)
  have "(r + 1 + j) mod 64 \<noteq> 56"
  proof (cases "r \<le> 55")
    case True
    then have "(119 - r) mod 64 = 55 - r" by (simp add: mod_if)
    with j True have "r + 1 + j < 56" by simp
    then show ?thesis by simp
  next
    case False
    with r have k: "(119 - r) mod 64 = 119 - r" by simp
    with j have lt: "r + 1 + j < 120" by simp
    show ?thesis
    proof (cases "r + 1 + j < 64")
      case True
      with False show ?thesis by simp
    next
      case False
      then have "(r + 1 + j) mod 64 = r + 1 + j - 64"
        using lt by (simp add: mod_if)
      with lt show ?thesis by simp
    qed
  qed
  then show ?thesis unfolding e .
qed

lemma pad_count_reaches: "((n :: nat) + 1 + (119 - n mod 64) mod 64) mod 64 = 56"
proof -
  define r where "r = n mod 64"
  have r: "r < 64" by (simp add: r_def)
  have g: "(n + k) mod 64 = (n mod 64 + k) mod 64" for k
    by (rule mod_add_left_eq [symmetric])
  have e: "(n + 1 + (119 - r) mod 64) mod 64 = (r + 1 + (119 - r) mod 64) mod 64"
    unfolding r_def using g [of "1 + (119 - n mod 64) mod 64"] by (simp only: add.assoc)
  have "(r + 1 + (119 - r) mod 64) mod 64 = 56"
  proof (cases "r \<le> 55")
    case True
    then have "(119 - r) mod 64 = 55 - r" by (simp add: mod_if)
    with True show ?thesis by simp
  next
    case False
    with r have "(119 - r) mod 64 = 119 - r" by simp
    with False r show ?thesis by simp
  qed
  with e show ?thesis by (simp only: r_def)
qed

text \<open>
  Claim C1. For every input, the message buffer of \<open>sha256\<close> is the input, \<open>0x80\<close>, the least
  number of zero bytes that brings the length to 56 modulo 64, and the bit length as eight
  big-endian bytes, so its length is a multiple of 64; the digest is the one that the
  standard's padding, message schedule and round function give, block by block, with 32-bit
  wrap-around addition. In particular the digest of the empty string is
  \<open>e3b0c442 98fc1c14 9afbf4c8 996fb924 27ae41e4 649b934c a495991b 7852b855\<close>, and the digest of
  \<open>abc\<close> is \<open>ba7816bf 8f01cfea 414140de 5dae2223 b00361a3 96177a9c b410ff61 f20015ad\<close>.
\<close>

theorem sha256_standard:
  "sha256_pad input
     = map of_char input @ [0x80] @ replicate ((119 - length input mod 64) mod 64) 0
       @ map (\<lambda>i. of_nat (8 * length input div 256 ^ i)) [7, 6, 5, 4, 3, 2, 1, 0]
   \<and> (length input + 1 + (119 - length input mod 64) mod 64) mod 64 = 56
   \<and> (\<forall>j < (119 - length input mod 64) mod 64. (length input + 1 + j) mod 64 \<noteq> 56)
   \<and> length (sha256_pad input) mod 64 = 0
   \<and> sha256 input = sha256_fips (map of_char input)
   \<and> sha256 '''' =
       [0xE3,0xB0,0xC4,0x42,0x98,0xFC,0x1C,0x14,0x9A,0xFB,0xF4,0xC8,0x99,0x6F,0xB9,0x24,
        0x27,0xAE,0x41,0xE4,0x64,0x9B,0x93,0x4C,0xA4,0x95,0x99,0x1B,0x78,0x52,0xB8,0x55]
   \<and> sha256 ''abc'' =
       [0xBA,0x78,0x16,0xBF,0x8F,0x01,0xCF,0xEA,0x41,0x41,0x40,0xDE,0x5D,0xAE,0x22,0x23,
        0xB0,0x03,0x61,0xA3,0x96,0x17,0x7A,0x9C,0xB4,0x10,0xFF,0x61,0xF2,0x00,0x15,0xAD]"
proof (intro conjI allI impI)
  show "sha256_pad input
     = map of_char input @ [0x80] @ replicate ((119 - length input mod 64) mod 64) 0
       @ map (\<lambda>i. of_nat (8 * length input div 256 ^ i)) [7, 6, 5, 4, 3, 2, 1, 0]"
    by (simp only: sha256_pad_fips fips_pad_def length_map)
  show "(length input + 1 + (119 - length input mod 64) mod 64) mod 64 = 56"
    by (rule pad_count_reaches)
  show "length (sha256_pad input) mod 64 = 0"
    by (simp only: sha256_pad_fips fips_pad_length)
  show "sha256 input = sha256_fips (map of_char input)"
    by (rule sha256_fips)
  have "map of_char '''' = ([] :: u8 list)"
    by simp
  then show "sha256 '''' =
       [0xE3,0xB0,0xC4,0x42,0x98,0xFC,0x1C,0x14,0x9A,0xFB,0xF4,0xC8,0x99,0x6F,0xB9,0x24,
        0x27,0xAE,0x41,0xE4,0x64,0x9B,0x93,0x4C,0xA4,0x95,0x99,0x1B,0x78,0x52,0xB8,0x55]"
    by (simp only: sha256_fips sha256_fips_empty)
  have "map of_char ''abc'' = ([0x61, 0x62, 0x63] :: u8 list)"
    by simp
  then show "sha256 ''abc'' =
       [0xBA,0x78,0x16,0xBF,0x8F,0x01,0xCF,0xEA,0x41,0x41,0x40,0xDE,0x5D,0xAE,0x22,0x23,
        0xB0,0x03,0x61,0xA3,0x96,0x17,0x7A,0x9C,0xB4,0x10,0xFF,0x61,0xF2,0x00,0x15,0xAD]"
    by (simp only: sha256_fips sha256_fips_abc)
next
  fix j
  assume "j < (119 - length input mod 64) mod 64"
  then show "(length input + 1 + j) mod 64 \<noteq> 56"
    by (rule pad_count_least)
qed

theorem sha256_standard_witness:
  "(3 :: nat) < (119 - length ''abc'' mod 64) mod 64 \<and> (length ''abc'' + 1 + 3) mod 64 \<noteq> 56"
  using sha256_standard [of "''abc''"] by simp

section \<open>The PKCE verifier and challenge\<close>

lemma fold_snoc_map: "fold (\<lambda>i r. r @ [f i]) xs acc = acc @ map f xs"
  by (induction xs arbitrary: acc) simp_all

lemma random_alnum_map: "random_alnum r len = map (\<lambda>i. charset ! dist r i) [0..<len]"
  by (simp add: random_alnum_def fold_snoc_map)

lemma charset_alnum: "\<forall>c \<in> set charset. alnum c"
  by (simp add: charset_def alnum_def)

lemma dist_less: "dist r k < length charset"
  by (simp add: dist_def charset_def)

text \<open>
  Claim C7. Every challenge pair that \<open>make_pkce_challenge\<close> returns, whatever the random
  engine draws, has a verifier of 64 characters (so between 43 and 128), all of them in
  \<open>[A-Za-z0-9]\<close>, and its challenge is \<open>base64url\<close> of the SHA-256 digest of that verifier:
  the unpadded URL-safe base64 of the digest that the standard defines for the verifier's
  bytes, hence 43 characters of the URL-safe alphabet.
\<close>

theorem make_pkce_challenge_verifier:
  "length (verifier (make_pkce_challenge w)) = 64
   \<and> 43 \<le> length (verifier (make_pkce_challenge w))
   \<and> length (verifier (make_pkce_challenge w)) \<le> 128
   \<and> (\<forall>c \<in> set (verifier (make_pkce_challenge w)). alnum c)
   \<and> challenge (make_pkce_challenge w) = base64url (sha256 (verifier (make_pkce_challenge w)))
   \<and> challenge (make_pkce_challenge w)
       = base64url_spec (sha256_fips (map of_char (verifier (make_pkce_challenge w))))
   \<and> length (challenge (make_pkce_challenge w)) = 43"
proof -
  have v: "verifier (make_pkce_challenge w) = random_alnum (rng w) 64"
    by (simp add: make_pkce_challenge_def Let_def)
  have c: "challenge (make_pkce_challenge w) = base64url (sha256 (random_alnum (rng w) 64))"
    by (simp add: make_pkce_challenge_def Let_def)
  have l: "length (random_alnum (rng w) 64) = 64"
    by (simp add: random_alnum_map)
  have a: "\<forall>c \<in> set (random_alnum (rng w) 64). alnum c"
    using charset_alnum dist_less by (auto simp: random_alnum_map)
  have s: "base64url (sha256 (random_alnum (rng w) 64))
      = base64url_spec (sha256_fips (map of_char (random_alnum (rng w) 64)))"
    by (simp only: sha256_fips base64url_eq_spec)
  have n: "length (base64url (sha256 (random_alnum (rng w) 64))) = 43"
    by (simp add: base64url_eq_spec base64url_spec_length sha256_fips sha256_fips_length)
  show ?thesis
    unfolding v c using l a s n by simp
qed

theorem make_pkce_challenge_verifier_witness:
  "CHR ''A'' \<in> set (verifier (make_pkce_challenge \<lparr>clock_now = 0, rng = (\<lambda>k. k)\<rparr>))
   \<and> alnum (CHR ''A'')"
proof -
  let ?w = "\<lparr>clock_now = 0, rng = (\<lambda>k. k)\<rparr>"
  have "verifier (make_pkce_challenge ?w) ! 0 = CHR ''A''"
    by (simp add: make_pkce_challenge_def Let_def random_alnum_map dist_def charset_def
        del: upt_Suc)
  moreover have "0 < length (verifier (make_pkce_challenge ?w))"
    using make_pkce_challenge_verifier [of ?w] by simp
  ultimately have m: "CHR ''A'' \<in> set (verifier (make_pkce_challenge ?w))"
    by (metis nth_mem)
  with make_pkce_challenge_verifier [of ?w] show ?thesis
    by blast
qed

end
